theory Spec2Isabelle
  imports Complex_Main "HOL-Library.AList" "HOL-Library.Sublist" "HOL-Library.Log_Nat"
begin

section \<open>Common JavaScript idioms\<close>

text \<open>
  A JavaScript number is an IEEE 754 binary64 value. The model carries the value of a number
  that holds money as a rational, and an addition rounds the exact sum to the format: to the
  nearest value, a tie to the value with the even mantissa, the subnormal values included.
  A sum of magnitude \<^verbatim>\<open>2 ** 1024\<close> or more, which JavaScript holds as \<^verbatim>\<open>Infinity\<close>, is not
  modelled, nor are \<^verbatim>\<open>NaN\<close> and the sign of zero. Every number that the code holds (a cost
  that the engine reports, a limit of the configuration, a total) is a value of the format:
  the decimal literal \<^verbatim>\<open>0.1\<close> is the number \<open>round64 (1 / 10)\<close>.
\<close>

type_synonym cost = rat

text \<open>The nearest integer, a tie going to the even one.\<close>

definition rne :: "rat \<Rightarrow> int" where
  "rne x = (let f = \<lfloor>x\<rfloor>; r = x - of_int f
            in if r < 1 / 2 then f else if 1 / 2 < r then f + 1 else if even f then f else f + 1)"

text \<open>The binary exponent of a positive number: the \<open>e\<close> with \<open>2 powi e \<le> x < 2 powi (e + 1)\<close>.\<close>

definition expo :: "rat \<Rightarrow> int" where
  "expo x = (case quotient_of x of (p, q) \<Rightarrow>
               let e = bitlen p - bitlen q in if 2 powi e \<le> x then e else e - 1)"

text \<open>
  The exponent of the last place of the mantissa: 52 places below the exponent of the
  number, and at least \<open>- 1074\<close>, the exponent of the least subnormal value.
\<close>

definition ulp_exp :: "rat \<Rightarrow> int" where
  "ulp_exp x = max (expo x) (- 1022) - 52"

definition round_pos :: "rat \<Rightarrow> rat" where
  "round_pos x = of_int (rne (x / 2 powi ulp_exp x)) * 2 powi ulp_exp x"

text \<open>The value of the format that a real number is rounded to.\<close>

definition round64 :: "rat \<Rightarrow> rat" where
  "round64 x = (if x = 0 then 0 else if 0 < x then round_pos x else - round_pos (- x))"

text \<open>
  \<^verbatim>\<open>a + b\<close> on numbers: the exact sum of the two values, rounded. A rational that is not a
  value of the format stands for the value nearest to it, so the operands are rounded first,
  which leaves a value of the format as it is.
\<close>

definition js_plus :: "cost \<Rightarrow> cost \<Rightarrow> cost" where
  "js_plus a b = round64 (round64 a + round64 b)"

text \<open>\<^verbatim>\<open>a >= b\<close> on numbers, the operands read in the same way.\<close>

definition js_ge :: "cost \<Rightarrow> cost \<Rightarrow> bool" where
  "js_ge a b \<longleftrightarrow> round64 b \<le> round64 a"

text \<open>The values that a number can hold.\<close>

definition is_double :: "cost \<Rightarrow> bool" where
  "is_double x \<longleftrightarrow> round64 x = x"

text \<open>
  A property that may be \<^verbatim>\<open>undefined\<close> is an \<open>option\<close>. The operator \<^verbatim>\<open>x || d\<close> on a
  number yields \<open>d\<close> when \<open>x\<close> is \<^verbatim>\<open>undefined\<close> or \<open>0\<close>.
\<close>

definition js_or :: "'a::zero option \<Rightarrow> 'a \<Rightarrow> 'a" where
  "js_or v d = (case v of None \<Rightarrow> d | Some x \<Rightarrow> if x = 0 then d else x)"

text \<open>A JavaScript \<^verbatim>\<open>Set\<close> iterates in insertion order: a list without duplicates.\<close>

definition set_add :: "'a \<Rightarrow> 'a list \<Rightarrow> 'a list" where
  "set_add x xs = (if x \<in> set xs then xs else xs @ [x])"

definition set_delete :: "'a \<Rightarrow> 'a list \<Rightarrow> 'a list" where
  "set_delete x xs = removeAll x xs"

text \<open>\<^verbatim>\<open>new Set(iterable)\<close>: the elements are added one after the other.\<close>

definition new_Set :: "'a list \<Rightarrow> 'a list" where
  "new_Set xs = foldl (\<lambda>acc x. set_add x acc) [] xs"

text \<open>
  Decimal rendering of a non-negative integer inside a template string (an integer of 22
  digits or more, which JavaScript prints with an exponent, is not modelled).
\<close>

fun digits :: "nat \<Rightarrow> string" where
  "digits n = (if n < 10 then [''0123456789'' ! n]
               else digits (n div 10) @ [''0123456789'' ! (n mod 10)])"

declare digits.simps [simp del]

section \<open>The dashboard (dashboard-server.js)\<close>

subsection \<open>Data\<close>

text \<open>
  An issue as it travels in a \<^verbatim>\<open>detection_complete\<close> event. The reducer reads
  \<^verbatim>\<open>id\<close>, \<^verbatim>\<open>file\<close> and \<^verbatim>\<open>line\<close>; the other fields are copied by the spread.
\<close>

record ev_issue =
  ei_id :: "string option"
  ei_file :: string
  ei_line :: nat
  ei_severity :: string
  ei_type :: string
  ei_message :: string
  ei_autoFixable :: bool

datatype issue_status = Detected | Fixing | Failed

text \<open>The object stored in \<^verbatim>\<open>ralphState.issues\<close>: the spread issue with id, status, progress.\<close>

record dash_issue =
  di_id :: string
  di_issue :: ev_issue
  di_status :: issue_status
  di_progress :: "nat option"

record log_line =
  ll_time :: nat
  ll_message :: string
  ll_level :: string

text \<open>
  The events, with the data fields that the reducer or a claim reads. A field the reducer
  tests for presence is an \<open>option\<close>. An event name without a \<^verbatim>\<open>case\<close> in the
  reducer's \<^verbatim>\<open>switch\<close> goes through unchanged.
\<close>

datatype event =
    RalphStarted "nat option" "cost option"
  | CycleStarted nat nat
  | DetectionStarted nat
  | DetectionComplete "ev_issue list option" nat "cost option"
  | FixStarted string "string list option"
  | FixProgress string nat
  | VerificationResult string bool bool
  | FixComplete string bool "string list option" "string list option"
  | CostUpdate "cost option"
  | CycleComplete nat nat "cost option"
  | BudgetWarning cost cost
  | RalphComplete string nat "cost option" string
  | LogEntry string "string option"
  | OtherEvent string

text \<open>
  \<^verbatim>\<open>let ralphState = { started, cycle, maxCycles, budgetHard, totalCost, startTime,
  issues: new Map(), fixing: new Set(), completed: new Set(), logs: [] }\<close>.
  The \<^verbatim>\<open>Map\<close> is an association list in insertion order.
\<close>

record dash_state =
  started :: bool
  d_cycle :: nat
  d_maxCycles :: nat
  d_budgetHard :: cost
  d_totalCost :: cost
  d_startTime :: "nat option"
  d_issues :: "(string \<times> dash_issue) list"
  fixing :: "string list"
  completed :: "string list"
  logs :: "log_line list"

definition initialDashState :: dash_state where
  "initialDashState = \<lparr> started = False, d_cycle = 0, d_maxCycles = 10, d_budgetHard = 20,
     d_totalCost = 0, d_startTime = None, d_issues = [], fixing = [], completed = [], logs = [] \<rparr>"

subsection \<open>updateRalphState\<close>

text \<open>\<^verbatim>\<open>const id = issue.id || `${issue.file}:${issue.line}`\<close>; the empty string is falsy.\<close>

definition event_issue_id :: "ev_issue \<Rightarrow> string" where
  "event_issue_id i =
     (case ei_id i of
        Some s \<Rightarrow> if s \<noteq> [] then s else ei_file i @ '':'' @ digits (ei_line i)
      | None \<Rightarrow> ei_file i @ '':'' @ digits (ei_line i))"

text \<open>One round of the \<^verbatim>\<open>forEach\<close> in \<^verbatim>\<open>detection_complete\<close>.\<close>

definition detection_add :: "dash_state \<Rightarrow> ev_issue \<Rightarrow> dash_state" where
  "detection_add s issue =
     (let k = event_issue_id issue in
      if k \<notin> set (completed s)
      then s\<lparr>d_issues := AList.update k
                \<lparr>di_id = k, di_issue = issue, di_status = Detected, di_progress = None\<rparr> (d_issues s)\<rparr>
      else s)"

text \<open>One round of the \<^verbatim>\<open>forEach\<close> in \<^verbatim>\<open>fix_started\<close>.\<close>

definition fix_started_one :: "dash_state \<Rightarrow> string \<Rightarrow> dash_state" where
  "fix_started_one s k =
     s\<lparr>fixing := set_add k (fixing s),
       d_issues := AList.map_entry k (\<lambda>i. i\<lparr>di_status := Fixing, di_progress := Some 0\<rparr>) (d_issues s)\<rparr>"

text \<open>One round of the first and of the second \<^verbatim>\<open>forEach\<close> in \<^verbatim>\<open>fix_complete\<close>.\<close>

definition fix_fixed_one :: "dash_state \<Rightarrow> string \<Rightarrow> dash_state" where
  "fix_fixed_one s k =
     s\<lparr>fixing := set_delete k (fixing s),
       completed := set_add k (completed s),
       d_issues := AList.delete k (d_issues s)\<rparr>"

definition fix_failed_one :: "dash_state \<Rightarrow> string \<Rightarrow> dash_state" where
  "fix_failed_one s k =
     s\<lparr>fixing := set_delete k (fixing s),
       d_issues := AList.map_entry k (\<lambda>i. i\<lparr>di_status := Failed\<rparr>) (d_issues s)\<rparr>"

text \<open>
  The reducer. \<open>now\<close> is what \<^verbatim>\<open>Date.now()\<close> returns during the call (the log line
  keeps the same instant, its formatting as a time of day left out).
\<close>

fun updateRalphState :: "nat \<Rightarrow> event \<Rightarrow> dash_state \<Rightarrow> dash_state" where
  "updateRalphState now (RalphStarted mc bh) s =
     s\<lparr>started := True, d_maxCycles := js_or mc 10, d_budgetHard := js_or bh 20,
       d_startTime := Some now, d_cycle := 0, d_totalCost := 0,
       d_issues := [], fixing := [], completed := [], logs := []\<rparr>"
| "updateRalphState now (CycleStarted c mc) s = s\<lparr>d_cycle := c, d_maxCycles := mc\<rparr>"
| "updateRalphState now (DetectionComplete iss af c) s =
     (let s1 = s\<lparr>d_issues := [], fixing := []\<rparr>;
          s2 = (case iss of None \<Rightarrow> s1 | Some l \<Rightarrow> foldl detection_add s1 l)
      in case c of
           None \<Rightarrow> s2
         | Some x \<Rightarrow> if x \<noteq> 0 then s2\<lparr>d_totalCost := js_plus (d_totalCost s2) x\<rparr> else s2)"
| "updateRalphState now (FixStarted f ids) s =
     (case ids of None \<Rightarrow> s | Some l \<Rightarrow> foldl fix_started_one s l)"
| "updateRalphState now (FixProgress f p) s =
     s\<lparr>d_issues := map (\<lambda>(k, i). if ei_file (di_issue i) = f \<and> k \<in> set (fixing s)
                                  then (k, i\<lparr>di_progress := Some p\<rparr>) else (k, i)) (d_issues s)\<rparr>"
| "updateRalphState now (FixComplete f ok fixed failed) s =
     (let s1 = (case fixed of None \<Rightarrow> s | Some l \<Rightarrow> foldl fix_fixed_one s l)
      in case failed of None \<Rightarrow> s1 | Some l \<Rightarrow> foldl fix_failed_one s1 l)"
| "updateRalphState now (CostUpdate t) s = s\<lparr>d_totalCost := js_or t (d_totalCost s)\<rparr>"
| "updateRalphState now (CycleComplete c fx t) s = s\<lparr>d_totalCost := js_or t (d_totalCost s)\<rparr>"
| "updateRalphState now (RalphComplete st fx t r) s = s\<lparr>d_totalCost := js_or t (d_totalCost s)\<rparr>"
| "updateRalphState now (LogEntry m lv) s =
     (let l = logs s @ [\<lparr>ll_time = now, ll_message = m,
                         ll_level = (case lv of None \<Rightarrow> ''info'' | Some x \<Rightarrow> if x = [] then ''info'' else x)\<rparr>]
      in s\<lparr>logs := (if length l > 100 then tl l else l)\<rparr>)"
| "updateRalphState now (DetectionStarted n) s = s"
| "updateRalphState now (VerificationResult f v r) s = s"
| "updateRalphState now (BudgetWarning c w) s = s"
| "updateRalphState now (OtherEvent n) s = s"

text \<open>A sequence of events, each with the instant of its application.\<close>

definition apply_events :: "dash_state \<Rightarrow> (nat \<times> event) list \<Rightarrow> dash_state" where
  "apply_events s evs = foldl (\<lambda>st (now, ev). updateRalphState now ev st) s evs"

subsection \<open>getSerializableState\<close>

record snapshot =
  sn_started :: bool
  sn_cycle :: nat
  sn_maxCycles :: nat
  sn_budgetHard :: cost
  sn_totalCost :: cost
  sn_startTime :: "nat option"
  sn_issues :: "dash_issue list"
  sn_fixing :: "string list"
  sn_completed :: "string list"
  sn_logs :: "log_line list"

definition getSerializableState :: "dash_state \<Rightarrow> snapshot" where
  "getSerializableState s =
     \<lparr> sn_started = started s, sn_cycle = d_cycle s, sn_maxCycles = d_maxCycles s,
       sn_budgetHard = d_budgetHard s, sn_totalCost = d_totalCost s, sn_startTime = d_startTime s,
       sn_issues = map snd (d_issues s), sn_fixing = fixing s, sn_completed = completed s,
       sn_logs = logs s \<rparr>"

subsection \<open>The server: connection handler and emitEvent\<close>

text \<open>
  A connected socket: its identity, whether \<^verbatim>\<open>readyState === WebSocket.OPEN\<close>, and
  whether \<^verbatim>\<open>ws.send\<close> throws on it.
\<close>

record client =
  cid :: nat
  readyOpen :: bool
  sendThrows :: bool

datatype message =
    Connected nat
  | StateSync snapshot nat
  | EventMsg event nat

record server =
  isRunning :: bool
  clients :: "client list"
  ralphState :: dash_state

text \<open>
  The handler of \<^verbatim>\<open>wss.on('connection', ...)\<close>. It adds the socket to the clients and then
  calls \<^verbatim>\<open>ws.send\<close> with no \<^verbatim>\<open>try\<close> around it and no test of \<^verbatim>\<open>readyState\<close>: on a socket
  whose \<^verbatim>\<open>send\<close> throws, the first call ends the handler, which sends nothing and throws.
  The result holds the server, the messages that \<^verbatim>\<open>ws.send\<close> accepted, each with the socket
  it was sent to, and whether the handler threw (what the exception then does to the process
  is not modelled).
\<close>

definition onConnection :: "nat \<Rightarrow> client \<Rightarrow> server \<Rightarrow> server \<times> (nat \<times> message) list \<times> bool" where
  "onConnection now ws srv =
     (let srv1 = srv\<lparr>clients := set_add ws (clients srv)\<rparr>
      in if sendThrows ws then (srv1, [], True)
         else (let ack = [(cid ws, Connected now)];
                   sync = (if started (ralphState srv1)
                           then [(cid ws, StateSync (getSerializableState (ralphState srv1)) now)]
                           else [])
               in (srv1, ack @ sync, False)))"

text \<open>One round of \<^verbatim>\<open>clients.forEach\<close> in \<^verbatim>\<open>emitEvent\<close>, with its try and catch.\<close>

definition send_one :: "message \<Rightarrow> client list \<times> (nat \<times> message) list \<Rightarrow> client
    \<Rightarrow> client list \<times> (nat \<times> message) list" where
  "send_one m acc ws =
     (if readyOpen ws
      then (if sendThrows ws then (set_delete ws (fst acc), snd acc)
            else (fst acc, snd acc @ [(cid ws, m)]))
      else acc)"

definition emitEvent :: "nat \<Rightarrow> event \<Rightarrow> server \<Rightarrow> server \<times> (nat \<times> message) list" where
  "emitEvent now ev srv =
     (let srv1 = srv\<lparr>ralphState := updateRalphState now ev (ralphState srv)\<rparr>
      in if \<not> isRunning srv1 then (srv1, [])
         else (let (cs, sent) = foldl (send_one (EventMsg ev now)) (clients srv1, []) (clients srv1)
               in (srv1\<lparr>clients := cs\<rparr>, sent)))"

text \<open>
  What else happens to the server between two events: a socket connects or closes, the
  HTTP server starts listening (\<^verbatim>\<open>isRunning = true\<close>) or \<^verbatim>\<open>stopDashboard\<close>, which
  returns at once when the server is not running, clears the clients and resets
  \<^verbatim>\<open>isRunning\<close>.
\<close>

datatype action =
    Emit nat event
  | Connect nat client
  | Close client
  | Listening
  | Stopped

fun server_step :: "server \<Rightarrow> action \<Rightarrow> server" where
  "server_step srv (Emit now ev) = fst (emitEvent now ev srv)"
| "server_step srv (Connect now ws) = fst (onConnection now ws srv)"
| "server_step srv (Close ws) = srv\<lparr>clients := set_delete ws (clients srv)\<rparr>"
| "server_step srv Listening = srv\<lparr>isRunning := True\<rparr>"
| "server_step srv Stopped = (if isRunning srv then srv\<lparr>clients := [], isRunning := False\<rparr> else srv)"

fun emitted_of :: "action list \<Rightarrow> (nat \<times> event) list" where
  "emitted_of [] = []"
| "emitted_of (Emit now ev # as) = (now, ev) # emitted_of as"
| "emitted_of (a # as) = emitted_of as"

subsection \<open>A sample event stream\<close>

definition issue_a10 :: ev_issue where
  "issue_a10 = \<lparr>ei_id = None, ei_file = ''a.ts'', ei_line = 10, ei_severity = ''medium'',
     ei_type = ''console-log'', ei_message = ''console.log statement'', ei_autoFixable = True\<rparr>"

definition issue_b3 :: ev_issue where
  "issue_b3 = \<lparr>ei_id = Some ''b.ts:3'', ei_file = ''b.ts'', ei_line = 3, ei_severity = ''critical'',
     ei_type = ''api-key'', ei_message = ''hardcoded key'', ei_autoFixable = False\<rparr>"

definition sample_events :: "(nat \<times> event) list" where
  "sample_events =
     [(1, RalphStarted (Some 3) (Some 20)),
      (2, CycleStarted 1 3),
      (3, DetectionComplete (Some [issue_a10, issue_b3]) 1 (Some (1/4))),
      (4, FixStarted ''a.ts'' (Some [''a.ts:10''])),
      (5, FixComplete ''a.ts'' True (Some [''a.ts:10'']) (Some [])),
      (6, CycleStarted 2 3),
      (7, DetectionComplete (Some [issue_a10, issue_b3]) 1 (Some (1/4)))]"

definition observer7 :: client where
  "observer7 = \<lparr>cid = 7, readyOpen = True, sendThrows = False\<rparr>"

definition observer8 :: client where
  "observer8 = \<lparr>cid = 8, readyOpen = True, sendThrows = True\<rparr>"

definition observer9 :: client where
  "observer9 = \<lparr>cid = 9, readyOpen = False, sendThrows = False\<rparr>"

definition finished_run :: "(nat \<times> event) list" where
  "finished_run =
     [(1, RalphStarted (Some 3) (Some 20)),
      (2, CycleStarted 1 3),
      (3, DetectionComplete (Some []) 0 (Some (1/4))),
      (4, CostUpdate (Some (1/4))),
      (5, RalphComplete ''complete'' 0 (Some (1/4)) ''No issues found'')]"

definition server_of :: "dash_state \<Rightarrow> server" where
  "server_of st = \<lparr>isRunning = True, clients = [], ralphState = st\<rparr>"

definition busy_server :: server where
  "busy_server = \<lparr>isRunning = True, clients = [observer7, observer8, observer9],
     ralphState = initialDashState\<rparr>"

definition idle_server :: server where
  "idle_server = \<lparr>isRunning = False, clients = [], ralphState = initialDashState\<rparr>"

definition watched_run :: "action list" where
  "watched_run = [Emit 1 (RalphStarted (Some 3) (Some 20)), Close observer9, Emit 2 (CycleStarted 1 3),
     Connect 3 observer9, Emit 3 (DetectionComplete (Some [issue_a10]) 1 (Some (1/4))), Stopped]"

definition unwatched_run :: "action list" where
  "unwatched_run = [Emit 1 (RalphStarted (Some 3) (Some 20)), Emit 2 (CycleStarted 1 3),
     Emit 3 (DetectionComplete (Some [issue_a10]) 1 (Some (1/4)))]"

section \<open>The watcher (error handling and retry)\<close>

text \<open>
  Strings are lists of bytes. \<^verbatim>\<open>toLowerCase\<close> is modelled on the ASCII letters, where every
  signature that \<^verbatim>\<open>isNonRetryableError\<close> looks for lives.
\<close>

definition lower_char :: "char \<Rightarrow> char" where
  "lower_char c =
     (case map_of (zip ''ABCDEFGHIJKLMNOPQRSTUVWXYZ'' ''abcdefghijklmnopqrstuvwxyz'') c of
        Some l \<Rightarrow> l | None \<Rightarrow> c)"

definition toLowerCase :: "string \<Rightarrow> string" where
  "toLowerCase s = map lower_char s"

text \<open>\<^verbatim>\<open>s.includes(pat)\<close> and \<^verbatim>\<open>s.endsWith(suf)\<close>.\<close>

definition str_includes :: "string \<Rightarrow> string \<Rightarrow> bool" where
  "str_includes s pat = sublist pat s"

definition endsWith :: "string \<Rightarrow> string \<Rightarrow> bool" where
  "endsWith s suf = suffix suf s"

text \<open>An \<^verbatim>\<open>Error\<close> object; \<^verbatim>\<open>message\<close> may be missing.\<close>

record js_error =
  message :: "string option"

text \<open>What a \<^verbatim>\<open>throw\<close> carries: an error, or \<^verbatim>\<open>undefined\<close>.\<close>

datatype thrown = Undefined | Err js_error

definition isNonRetryableError :: "js_error \<Rightarrow> bool" where
  "isNonRetryableError error =
     (let msg = (case message error of None \<Rightarrow> [] | Some m \<Rightarrow> toLowerCase m)
      in str_includes msg ''not found'' \<or>
         str_includes msg ''permission denied'' \<or>
         str_includes msg ''invalid'' \<or>
         str_includes msg ''authentication'' \<or>
         str_includes msg ''401'' \<or>
         str_includes msg ''403'')"

record retry_options =
  maxAttempts :: "nat option"
  baseDelay :: "nat option"

text \<open>
  The \<^verbatim>\<open>for\<close> loop of \<^verbatim>\<open>withRetry\<close>. The operation \<open>fn\<close> runs on a state and either
  returns or throws an error; the delays handed to \<^verbatim>\<open>sleep\<close> are collected in order.
\<close>

function retry_loop :: "('s \<Rightarrow> (js_error + 'a) \<times> 's) \<Rightarrow> nat \<Rightarrow> nat \<Rightarrow> nat \<Rightarrow> thrown
    \<Rightarrow> 's \<Rightarrow> nat list \<Rightarrow> (thrown + 'a) \<times> 's \<times> nat list" where
  "retry_loop fn maxA baseD attempt lastError s slept =
     (if attempt \<le> maxA then
        (case fn s of
           (Inr v, s') \<Rightarrow> (Inr v, s', slept)
         | (Inl error, s') \<Rightarrow>
             if isNonRetryableError error then (Inl (Err error), s', slept)
             else if attempt < maxA
               then retry_loop fn maxA baseD (attempt + 1) (Err error) s'
                      (slept @ [baseD * 2 ^ (attempt - 1)])
               else retry_loop fn maxA baseD (attempt + 1) (Err error) s' slept)
      else (Inl lastError, s, slept))"
  by pat_completeness auto
termination
  by (relation "measure (\<lambda>(fn, maxA, baseD, attempt, lastError, s, slept). maxA + 1 - attempt)") auto

definition withRetry :: "('s \<Rightarrow> (js_error + 'a) \<times> 's) \<Rightarrow> retry_options \<Rightarrow> 's
    \<Rightarrow> (thrown + 'a) \<times> 's \<times> nat list" where
  "withRetry fn options s =
     retry_loop fn (case maxAttempts options of None \<Rightarrow> 3 | Some m \<Rightarrow> m)
       (case baseDelay options of None \<Rightarrow> 1000 | Some d \<Rightarrow> d) 1 Undefined s []"

text \<open>The state in which the call number \<open>k + 1\<close> of the operation starts.\<close>

definition state_before :: "('s \<Rightarrow> (js_error + 'a) \<times> 's) \<Rightarrow> 's \<Rightarrow> nat \<Rightarrow> 's" where
  "state_before fn s k = ((\<lambda>x. snd (fn x)) ^^ k) s"

text \<open>The first \<open>k\<close> calls of the operation all throw an error that is not fatal.\<close>

definition transient_failures :: "('s \<Rightarrow> (js_error + 'a) \<times> 's) \<Rightarrow> 's \<Rightarrow> nat \<Rightarrow> bool" where
  "transient_failures fn s k =
     (\<forall>i < k. case fst (fn (state_before fn s i)) of
                 Inl e \<Rightarrow> \<not> isNonRetryableError e | Inr v \<Rightarrow> False)"

text \<open>Sample operations on a call counter: the outcome depends on the number of calls so far.\<close>

definition timed_out :: js_error where
  "timed_out = \<lparr>message = Some ''Review timed out''\<rparr>"

definition cli_missing :: js_error where
  "cli_missing = \<lparr>message = Some ''Claude CLI Not Found at /usr/bin/claude''\<rparr>"

definition flaky_op :: "nat \<Rightarrow> (js_error + nat) \<times> nat" where
  "flaky_op calls = (if calls < 2 then Inl timed_out else Inr 42, Suc calls)"

definition hanging_op :: "nat \<Rightarrow> (js_error + nat) \<times> nat" where
  "hanging_op calls = (Inl timed_out, Suc calls)"

definition unauthorised_op :: "nat \<Rightarrow> (js_error + nat) \<times> nat" where
  "unauthorised_op calls = (if calls < 1 then Inl timed_out else Inl cli_missing, Suc calls)"

section \<open>The watcher (Ralph mode)\<close>

subsection \<open>Configuration, issues and the state of a run\<close>

text \<open>
  The part of \<^verbatim>\<open>CONFIG\<close> that Ralph mode reads: \<^verbatim>\<open>CONFIG.ralph.maxCycles\<close>,
  \<^verbatim>\<open>budgetWarning\<close>, \<^verbatim>\<open>budgetHard\<close>, and \<^verbatim>\<open>CONFIG.autoFix.backupFiles\<close>,
  \<^verbatim>\<open>verifyAfterFix\<close>, \<^verbatim>\<open>safePatterns\<close>. The cycle limit is a natural number.
\<close>

record config =
  maxCycles :: nat
  budgetWarning :: cost
  budgetHard :: cost
  backupFiles :: bool
  verifyAfterFix :: bool
  safePatterns :: "string list"

definition defaultConfig :: config where
  "defaultConfig = \<lparr> maxCycles = 10, budgetWarning = 5, budgetHard = 20, backupFiles = True,
     verifyAfterFix = True,
     safePatterns = [''hardcoded-localhost'', ''console-log'', ''debugger-statement''] \<rparr>"

text \<open>
  An issue as the engine reports it. \<^verbatim>\<open>autoFixable\<close> may be missing; a present value counts
  by its truthiness.
\<close>

record issue =
  i_file :: string
  i_line :: nat
  i_severity :: string
  i_type :: string
  i_message :: string
  i_autoFixable :: "bool option"

text \<open>The watcher's \<^verbatim>\<open>ralphState\<close>.\<close>

record ralph_state =
  cycle :: nat
  totalCost :: cost
  totalFixed :: nat
  totalIssuesFound :: nat
  startTime :: "nat option"
  stopped :: bool

text \<open>
  Everything a run reads and writes: \<^verbatim>\<open>ralphState\<close>, the files on disk (path to content),
  the value of \<^verbatim>\<open>Date.now()\<close> (the passage of time is not modelled), how many calls each
  engine entry point has received, and the events handed to \<^verbatim>\<open>dashboard?.emitEvent\<close>, in
  order, each with the instant of the call. Console output, notifications, HTML reports and the metrics file are left out.
\<close>

record sys =
  rs :: ralph_state
  fs :: "string \<rightharpoonup> string"
  clock :: nat
  detect_calls :: nat
  fix_calls :: nat
  emitted :: "(nat \<times> event) list"

definition initialSys :: "(string \<rightharpoonup> string) \<Rightarrow> nat \<Rightarrow> sys" where
  "initialSys disk now =
     \<lparr> rs = \<lparr>cycle = 0, totalCost = 0, totalFixed = 0, totalIssuesFound = 0, startTime = None,
              stopped = False\<rparr>,
       fs = disk, clock = now, detect_calls = 0, fix_calls = 0, emitted = [] \<rparr>"

subsection \<open>The external engine\<close>

text \<open>
  The engine is a black box: a run is determined by what each call answers. The answer to
  the call number \<open>n\<close> of an entry point says whether the promise resolves or rejects and
  with what, and whether Ctrl+C arrives while the call is awaited (the handler
  \<^verbatim>\<open>gracefulShutdown\<close> then sets \<^verbatim>\<open>ralphState.stopped\<close>; a second Ctrl+C, which exits
  the process, is not modelled). A fix call may edit the file it was given (detection has no
  editing tool): \<open>f_written\<close> is the content it leaves there, if it wrote at all.
\<close>

record detection =
  det_issues :: "issue list option"
  det_cost :: "cost option"

record detect_call =
  d_outcome :: "js_error + detection"
  d_sigint :: bool

record fix_result =
  fr_fixed :: bool
  fr_cost :: "cost option"

record fix_call =
  f_outcome :: "js_error + fix_result"
  f_written :: "string option"
  f_sigint :: bool

record engine =
  detect_engine :: "nat \<Rightarrow> detect_call"
  fix_engine :: "nat \<Rightarrow> fix_call"

subsection \<open>Helpers\<close>

definition emit :: "event \<Rightarrow> sys \<Rightarrow> sys" where
  "emit ev s = s\<lparr>emitted := emitted s @ [(clock s, ev)]\<rparr>"

text \<open>\<^verbatim>\<open>ralphState.totalCost += c\<close>.\<close>

definition addCost :: "cost \<Rightarrow> sys \<Rightarrow> sys" where
  "addCost c s = s\<lparr>rs := (rs s)\<lparr>totalCost := js_plus (totalCost (rs s)) c\<rparr>\<rparr>"

text \<open>Ctrl+C during an awaited call.\<close>

definition signal :: "bool \<Rightarrow> sys \<Rightarrow> sys" where
  "signal sigint s = s\<lparr>rs := (rs s)\<lparr>stopped := stopped (rs s) \<or> sigint\<rparr>\<rparr>"

text \<open>
  The callback that every filter for auto-fixable issues inlines:
  \<^verbatim>\<open>if (i.autoFixable !== undefined) return i.autoFixable;
  return CONFIG.autoFix.safePatterns.includes(i.type);\<close>
\<close>

definition inferAutoFixable :: "config \<Rightarrow> issue \<Rightarrow> bool" where
  "inferAutoFixable cfg i =
     (case i_autoFixable i of Some b \<Rightarrow> b | None \<Rightarrow> i_type i \<in> set (safePatterns cfg))"

definition countAutoFixable :: "config \<Rightarrow> issue list \<Rightarrow> nat" where
  "countAutoFixable cfg issues = length (filter (inferAutoFixable cfg) issues)"

text \<open>\<^verbatim>\<open>p.replace(/\\/g, '/')\<close>\<close>

definition slashes :: "string \<Rightarrow> string" where
  "slashes p = map (\<lambda>c. if c = CHR 0x5C then CHR ''/'' else c) p"

definition getAutoFixableForFile :: "config \<Rightarrow> issue list \<Rightarrow> string \<Rightarrow> issue list" where
  "getAutoFixableForFile cfg issues file =
     filter (\<lambda>i.
        let matchesFile = (i_file i = file \<or> endsWith (i_file i) file \<or> endsWith file (i_file i) \<or>
                           slashes (i_file i) = slashes file)
        in if \<not> matchesFile then False else inferAutoFixable cfg i) issues"

text \<open>\<^verbatim>\<open>`${i.file}:${i.line}`\<close>\<close>

definition issueId :: "issue \<Rightarrow> string" where
  "issueId i = i_file i @ '':'' @ digits (i_line i)"

text \<open>The issue objects built for the \<^verbatim>\<open>detection_complete\<close> event.\<close>

definition event_issue :: "config \<Rightarrow> issue \<Rightarrow> ev_issue" where
  "event_issue cfg i =
     \<lparr> ei_id = Some (issueId i), ei_file = i_file i, ei_line = i_line i,
       ei_severity = i_severity i, ei_type = i_type i, ei_message = i_message i,
       ei_autoFixable = inferAutoFixable cfg i \<rparr>"

subsection \<open>Backups\<close>

text \<open>\<^verbatim>\<open>fs.copyFileSync\<close> throws when the source is missing; both functions catch.\<close>

definition backupFile :: "string \<Rightarrow> sys \<Rightarrow> string option \<times> sys" where
  "backupFile filePath s =
     (let backupPath = filePath @ ''.backup-'' @ digits (clock s)
      in case fs s filePath of
           None \<Rightarrow> (None, s)
         | Some content \<Rightarrow> (Some backupPath, s\<lparr>fs := (fs s)(backupPath \<mapsto> content)\<rparr>))"

definition restoreFromBackup :: "string \<Rightarrow> string \<Rightarrow> sys \<Rightarrow> bool \<times> sys" where
  "restoreFromBackup originalPath backupPath s =
     (case fs s backupPath of
        None \<Rightarrow> (False, s)
      | Some content \<Rightarrow> (True, s\<lparr>fs := ((fs s)(originalPath \<mapsto> content))(backupPath := None)\<rparr>))"

definition cleanupBackup :: "string \<Rightarrow> sys \<Rightarrow> sys" where
  "cleanupBackup backupPath s = s\<lparr>fs := (fs s)(backupPath := None)\<rparr>"

subsection \<open>Engine calls\<close>

definition executeClaudeReview :: "engine \<Rightarrow> string list \<Rightarrow> sys \<Rightarrow> (js_error + detection) \<times> sys" where
  "executeClaudeReview env files s =
     (let r = detect_engine env (detect_calls s)
      in (d_outcome r, signal (d_sigint r) (s\<lparr>detect_calls := Suc (detect_calls s)\<rparr>)))"

definition executeClaudeFix :: "engine \<Rightarrow> config \<Rightarrow> string \<Rightarrow> issue list \<Rightarrow> sys
    \<Rightarrow> (js_error + fix_result) \<times> sys" where
  "executeClaudeFix env cfg file issues s =
     (let autoFixableIssues = filter (inferAutoFixable cfg) issues
      in if autoFixableIssues = [] then (Inr \<lparr>fr_fixed = False, fr_cost = None\<rparr>, s)
         else (let r = fix_engine env (fix_calls s);
                   s1 = s\<lparr>fix_calls := Suc (fix_calls s),
                          fs := (case f_written r of None \<Rightarrow> fs s | Some c \<Rightarrow> (fs s)(file \<mapsto> c))\<rparr>
               in (f_outcome r, signal (f_sigint r) s1)))"

definition executeClaudeReviewWithRetry :: "engine \<Rightarrow> string list \<Rightarrow> sys \<Rightarrow> (thrown + detection) \<times> sys" where
  "executeClaudeReviewWithRetry env files s =
     (case withRetry (executeClaudeReview env files) \<lparr>maxAttempts = Some 3, baseDelay = Some 1000\<rparr> s of
        (r, s', slept) \<Rightarrow> (r, s'))"

definition executeClaudeFixWithRetry :: "engine \<Rightarrow> config \<Rightarrow> string \<Rightarrow> issue list \<Rightarrow> sys
    \<Rightarrow> (thrown + fix_result) \<times> sys" where
  "executeClaudeFixWithRetry env cfg file issues s =
     (case withRetry (executeClaudeFix env cfg file issues) \<lparr>maxAttempts = Some 3, baseDelay = Some 1000\<rparr> s of
        (r, s', slept) \<Rightarrow> (r, s'))"

record verification =
  verified :: bool
  autoFixableRemaining :: "nat option"

definition verifyFix :: "engine \<Rightarrow> string \<Rightarrow> sys \<Rightarrow> verification \<times> sys" where
  "verifyFix env file s =
     (case executeClaudeReviewWithRetry env [file] s of
        (Inr result, s') \<Rightarrow>
          (let remaining = length (filter (\<lambda>i. i_autoFixable i = Some True)
                                     (case det_issues result of None \<Rightarrow> [] | Some l \<Rightarrow> l))
           in (\<lparr>verified = (remaining = 0), autoFixableRemaining = Some remaining\<rparr>, s'))
      | (Inl error, s') \<Rightarrow> (\<lparr>verified = False, autoFixableRemaining = None\<rparr>, s'))"

subsection \<open>One file of the fixing pass\<close>

text \<open>
  The \<^verbatim>\<open>try\<close> block of the loop over files, with its \<^verbatim>\<open>catch\<close>. The literal \<^verbatim>\<open>0.02\<close> is
  the value of the format nearest to \<open>1 / 50\<close>.
\<close>

definition fixTransaction :: "engine \<Rightarrow> config \<Rightarrow> string \<Rightarrow> issue list \<Rightarrow> string list
    \<Rightarrow> string option \<Rightarrow> nat \<times> sys \<Rightarrow> nat \<times> sys" where
  "fixTransaction env cfg file fileIssues issueIds backupPath acc =
     (case executeClaudeFixWithRetry env cfg file fileIssues (snd acc) of
        (Inl fixError, s1) \<Rightarrow>
          (let s2 = (case backupPath of Some b \<Rightarrow> snd (restoreFromBackup file b s1) | None \<Rightarrow> s1)
           in (fst acc, emit (FixComplete file False (Some []) (Some issueIds)) s2))
      | (Inr fixResult, s1) \<Rightarrow>
          (let s2 = addCost (js_or (fr_cost fixResult) 0) s1
           in if fr_fixed fixResult then
                (if verifyAfterFix cfg then
                   (case verifyFix env file s2 of (verification, s3) \<Rightarrow>
                      (let s4 = addCost (round64 (1 / 50)) s3
                       in if verified verification then
                            (let s5 = s4\<lparr>rs := (rs s4)\<lparr>totalFixed := totalFixed (rs s4) + length fileIssues\<rparr>\<rparr>;
                                 s6 = (case backupPath of Some b \<Rightarrow> cleanupBackup b s5 | None \<Rightarrow> s5);
                                 s7 = emit (VerificationResult file True False) s6
                             in (fst acc + length fileIssues,
                                 emit (FixComplete file True (Some issueIds) (Some [])) s7))
                          else
                            (let s5 = (case backupPath of Some b \<Rightarrow> snd (restoreFromBackup file b s4)
                                       | None \<Rightarrow> s4);
                                 s6 = emit (VerificationResult file False True) s5
                             in (fst acc, emit (FixComplete file False (Some []) (Some issueIds)) s6))))
                 else
                   (let s3 = s2\<lparr>rs := (rs s2)\<lparr>totalFixed := totalFixed (rs s2) + length fileIssues\<rparr>\<rparr>;
                        s4 = (case backupPath of Some b \<Rightarrow> cleanupBackup b s3 | None \<Rightarrow> s3)
                    in (fst acc + length fileIssues,
                        emit (FixComplete file True (Some issueIds) (Some [])) s4)))
              else
                (let s3 = (case backupPath of Some b \<Rightarrow> cleanupBackup b s2 | None \<Rightarrow> s2)
                 in (fst acc, emit (FixComplete file False (Some []) (Some issueIds)) s3))))"

text \<open>
  The body of the loop over \<^verbatim>\<open>fileSet\<close>. The first component of the result tells whether
  the loop is left by \<^verbatim>\<open>break\<close>; the two \<^verbatim>\<open>continue\<close> skip the test of
  \<^verbatim>\<open>ralphState.stopped\<close>.
\<close>

definition fixFile :: "engine \<Rightarrow> config \<Rightarrow> issue list \<Rightarrow> string \<Rightarrow> nat \<times> sys \<Rightarrow> bool \<times> nat \<times> sys" where
  "fixFile env cfg issues file acc =
     (let fileIssues = getAutoFixableForFile cfg issues file
      in if fileIssues = [] then (False, acc)
         else
           (let issueIds = map issueId fileIssues;
                s1 = emit (FixStarted file (Some issueIds)) (snd acc)
            in case (if backupFiles cfg then backupFile file s1 else (None, s1)) of
                 (backupPath, s2) \<Rightarrow>
                   if backupFiles cfg \<and> backupPath = None then (False, fst acc, s2)
                   else (case fixTransaction env cfg file fileIssues issueIds backupPath (fst acc, s2) of
                           (fixedCount, s3) \<Rightarrow> (stopped (rs s3), fixedCount, s3))))"

fun fixLoop :: "engine \<Rightarrow> config \<Rightarrow> issue list \<Rightarrow> string list \<Rightarrow> nat \<times> sys \<Rightarrow> nat \<times> sys" where
  "fixLoop env cfg issues [] acc = acc"
| "fixLoop env cfg issues (file # rest) acc =
     (case fixFile env cfg issues file acc of
        (brk, acc') \<Rightarrow> if brk then acc' else fixLoop env cfg issues rest acc')"

subsection \<open>runRalphCycle\<close>

record cycle_result =
  cr_complete :: bool
  cr_reason :: "string option"
  cr_remainingIssues :: "issue list option"
  cr_error :: "string option"
  cr_fixedThisCycle :: "nat option"

text \<open>The head of the cycle: the counter, \<^verbatim>\<open>cycle_started\<close> and \<^verbatim>\<open>detection_started\<close>.\<close>

definition cycleStart :: "config \<Rightarrow> string list \<Rightarrow> sys \<Rightarrow> sys" where
  "cycleStart cfg files s0 =
     (let s1 = s0\<lparr>rs := (rs s0)\<lparr>cycle := cycle (rs s0) + 1\<rparr>\<rparr>;
          s2 = emit (CycleStarted (cycle (rs s1)) (maxCycles cfg)) s1
      in emit (DetectionStarted (length files)) s2)"

text \<open>
  After a detection that resolved: its cost, the issue count, \<^verbatim>\<open>detection_complete\<close> and
  \<^verbatim>\<open>cost_update\<close>.
\<close>

definition detectionDone :: "config \<Rightarrow> detection \<Rightarrow> sys \<Rightarrow> sys" where
  "detectionDone cfg detection s4 =
     (let s5 = addCost (js_or (det_cost detection) 0) s4;
          issues = (case det_issues detection of None \<Rightarrow> [] | Some l \<Rightarrow> l);
          autoFixable = countAutoFixable cfg issues;
          s6 = s5\<lparr>rs := (rs s5)\<lparr>totalIssuesFound := totalIssuesFound (rs s5) + length issues\<rparr>\<rparr>;
          s7 = emit (DetectionComplete (Some (map (event_issue cfg) issues)) autoFixable
                     (Some (js_or (det_cost detection) 0))) s6
      in emit (CostUpdate (Some (totalCost (rs s7)))) s7)"

definition runRalphCycle :: "engine \<Rightarrow> config \<Rightarrow> string list \<Rightarrow> sys \<Rightarrow> cycle_result \<times> sys" where
  "runRalphCycle env cfg files s0 =
     (case executeClaudeReviewWithRetry env files (cycleStart cfg files s0) of
        (Inl error, s4) \<Rightarrow>
          (\<lparr>cr_complete = False, cr_reason = None, cr_remainingIssues = None,
            cr_error = (case error of Err e \<Rightarrow> message e | Undefined \<Rightarrow> None),
            cr_fixedThisCycle = None\<rparr>, s4)
      | (Inr detection, s4) \<Rightarrow>
          (let issues = (case det_issues detection of None \<Rightarrow> [] | Some l \<Rightarrow> l);
               autoFixable = countAutoFixable cfg issues;
               s8 = detectionDone cfg detection s4
           in if autoFixable = 0 then
                (if issues = []
                 then (\<lparr>cr_complete = True, cr_reason = Some ''No issues found'',
                        cr_remainingIssues = None, cr_error = None, cr_fixedThisCycle = None\<rparr>, s8)
                 else (\<lparr>cr_complete = True, cr_reason = Some ''No auto-fixable issues remaining'',
                        cr_remainingIssues = Some issues, cr_error = None,
                        cr_fixedThisCycle = None\<rparr>, s8))
              else
                (case fixLoop env cfg issues (new_Set (map i_file issues)) (0, s8) of
                   (fixedCount, s9) \<Rightarrow>
                     (\<lparr>cr_complete = False, cr_reason = None, cr_remainingIssues = None,
                       cr_error = None, cr_fixedThisCycle = Some fixedCount\<rparr>,
                      emit (CycleComplete (cycle (rs s9)) fixedCount (Some (totalCost (rs s9)))) s9))))"

subsection \<open>runRalphMode\<close>

text \<open>
  What the run hands to \<^verbatim>\<open>notifyRalphComplete\<close> and to the \<^verbatim>\<open>ralph_complete\<close> event:
  the status, the reason, and the issues left for manual review.
\<close>

record run_report =
  rr_status :: string
  rr_reason :: "string option"
  rr_remainingIssues :: "issue list option"

text \<open>The code after the main loop.\<close>

definition stoppedExit :: "sys \<Rightarrow> run_report \<times> sys" where
  "stoppedExit s =
     (let reason = (if stopped (rs s) then ''User interrupted'' else ''Max cycles reached'')
      in (\<lparr>rr_status = ''stopped'', rr_reason = Some reason, rr_remainingIssues = None\<rparr>,
          emit (RalphComplete ''stopped'' (totalFixed (rs s)) (Some (totalCost (rs s))) reason) s))"

text \<open>The branch \<^verbatim>\<open>if (result.complete)\<close>, which returns.\<close>

definition completeExit :: "cycle_result \<Rightarrow> sys \<Rightarrow> run_report \<times> sys" where
  "completeExit result s =
     (\<lparr>rr_status = ''complete'', rr_reason = cr_reason result,
       rr_remainingIssues = cr_remainingIssues result\<rparr>,
      emit (RalphComplete ''complete'' (totalFixed (rs s)) (Some (totalCost (rs s)))
              (case cr_reason result of Some r \<Rightarrow> r | None \<Rightarrow> [])) s)"

text \<open>The budget warning at the top of the main loop.\<close>

definition budgetWarn :: "config \<Rightarrow> sys \<Rightarrow> sys" where
  "budgetWarn cfg s =
     (if js_ge (totalCost (rs s)) (budgetWarning cfg) \<and> cycle (rs s) > 1
      then emit (BudgetWarning (totalCost (rs s)) (budgetWarning cfg)) s else s)"

function mainLoop :: "engine \<Rightarrow> config \<Rightarrow> string list \<Rightarrow> sys \<Rightarrow> run_report \<times> sys" where
  "mainLoop env cfg files s =
     (if cycle (rs s) < maxCycles cfg \<and> \<not> stopped (rs s) then
        (if js_ge (totalCost (rs s)) (budgetHard cfg) then stoppedExit s
         else
           (case runRalphCycle env cfg files (budgetWarn cfg s) of
              (result, s2) \<Rightarrow>
                if cr_complete result then completeExit result s2
                else mainLoop env cfg files s2))
      else stoppedExit s)"
  by pat_completeness auto

definition runRalphMode :: "engine \<Rightarrow> config \<Rightarrow> string list \<Rightarrow> sys \<Rightarrow> run_report option \<times> sys" where
  "runRalphMode env cfg files s =
     (let s1 = s\<lparr>rs := (rs s)\<lparr>startTime := Some (clock s)\<rparr>\<rparr>
      in if files = [] then (None, s1)
         else (case mainLoop env cfg files
                      (emit (RalphStarted (Some (maxCycles cfg)) (Some (budgetHard cfg))) s1) of
                 (report, s2) \<Rightarrow> (Some report, s2)))"

text \<open>The engine never reports a negative cost.\<close>

definition nonneg_costs :: "engine \<Rightarrow> bool" where
  "nonneg_costs env \<longleftrightarrow>
     (\<forall>n. case d_outcome (detect_engine env n) of Inr d \<Rightarrow> 0 \<le> js_or (det_cost d) 0 | Inl e \<Rightarrow> True) \<and>
     (\<forall>n. case f_outcome (fix_engine env n) of Inr r \<Rightarrow> 0 \<le> js_or (fr_cost r) 0 | Inl e \<Rightarrow> True)"

text \<open>No Ctrl+C arrives during the run.\<close>

definition no_sigint :: "engine \<Rightarrow> bool" where
  "no_sigint env \<longleftrightarrow> (\<forall>n. \<not> d_sigint (detect_engine env n)) \<and> (\<forall>n. \<not> f_sigint (fix_engine env n))"

text \<open>An event that the reducer applies without touching \<open>totalCost\<close>.\<close>

definition cost_neutral :: "event \<Rightarrow> bool" where
  "cost_neutral ev \<longleftrightarrow> (\<forall>now s. d_totalCost (updateRalphState now ev s) = d_totalCost s)"

text \<open>
  What every step of the fixing pass guarantees between the state before and the state
  after.
\<close>

definition follows :: "engine \<Rightarrow> sys \<Rightarrow> sys \<Rightarrow> bool" where
  "follows env s s' \<longleftrightarrow>
     cycle (rs s') = cycle (rs s) \<and> clock s' = clock s \<and>
     (is_double (totalCost (rs s)) \<longrightarrow> is_double (totalCost (rs s'))) \<and>
     (nonneg_costs env \<longrightarrow> is_double (totalCost (rs s)) \<longrightarrow> totalCost (rs s) \<le> totalCost (rs s')) \<and>
     (no_sigint env \<longrightarrow> stopped (rs s') = stopped (rs s)) \<and>
     (\<exists>evs. emitted s' = emitted s @ evs \<and> (\<forall>e \<in> set evs. cost_neutral (snd e)))"

text \<open>What a whole cycle guarantees.\<close>

definition advances :: "engine \<Rightarrow> sys \<Rightarrow> sys \<Rightarrow> bool" where
  "advances env s s' \<longleftrightarrow>
     cycle (rs s') = Suc (cycle (rs s)) \<and> clock s' = clock s \<and>
     (is_double (totalCost (rs s)) \<longrightarrow> is_double (totalCost (rs s'))) \<and>
     (nonneg_costs env \<longrightarrow> is_double (totalCost (rs s)) \<longrightarrow> totalCost (rs s) \<le> totalCost (rs s')) \<and>
     (no_sigint env \<longrightarrow> stopped (rs s') = stopped (rs s))"

definition one_issue :: issue where
  "one_issue = \<lparr>i_file = ''a.ts'', i_line = 10, i_severity = ''medium'', i_type = ''console-log'',
     i_message = ''console.log statement'', i_autoFixable = Some True\<rparr>"

definition stubborn_reviewer :: "cost \<Rightarrow> engine" where
  "stubborn_reviewer c =
     \<lparr> detect_engine = (\<lambda>n. \<lparr>d_outcome = Inr \<lparr>det_issues = Some [one_issue], det_cost = Some c\<rparr>,
                                d_sigint = False\<rparr>),
       fix_engine = (\<lambda>n. \<lparr>f_outcome = Inr \<lparr>fr_fixed = True, fr_cost = Some c\<rparr>,
                             f_written = Some ''// fixed'', f_sigint = False\<rparr>) \<rparr>"

definition sample_disk :: "string \<rightharpoonup> string" where
  "sample_disk = [''a.ts'' \<mapsto> ''console.log(1)'']"

definition three_cycles :: config where
  "three_cycles = defaultConfig\<lparr>maxCycles := 3\<rparr>"

text \<open>A reviewer that finds one hard-coded key, which it marks as not auto-fixable.\<close>

definition api_key_issue :: issue where
  "api_key_issue = \<lparr>i_file = ''a.ts'', i_line = 10, i_severity = ''critical'', i_type = ''api-key'',
     i_message = ''hardcoded API key'', i_autoFixable = Some False\<rparr>"

definition manual_reviewer :: engine where
  "manual_reviewer =
     \<lparr> detect_engine = (\<lambda>n. \<lparr>d_outcome = Inr \<lparr>det_issues = Some [api_key_issue], det_cost = Some (1/8)\<rparr>,
                                d_sigint = False\<rparr>),
       fix_engine = (\<lambda>n. \<lparr>f_outcome = Inl timed_out, f_written = None, f_sigint = False\<rparr>) \<rparr>"

text \<open>
  A reviewer whose re-detection reports a \<^verbatim>\<open>console-log\<close> issue without the
  \<^verbatim>\<open>autoFixable\<close> field, and a fixer that claims success.
\<close>

definition unflagged_issue :: issue where
  "unflagged_issue = \<lparr>i_file = ''a.ts'', i_line = 10, i_severity = ''medium'', i_type = ''console-log'',
     i_message = ''console.log statement'', i_autoFixable = None\<rparr>"

definition unflagged_reviewer :: engine where
  "unflagged_reviewer =
     \<lparr> detect_engine = (\<lambda>n. \<lparr>d_outcome = Inr \<lparr>det_issues = Some [unflagged_issue], det_cost = Some (1/8)\<rparr>,
                                d_sigint = False\<rparr>),
       fix_engine = (\<lambda>n. \<lparr>f_outcome = Inr \<lparr>fr_fixed = True, fr_cost = Some (1/8)\<rparr>,
                             f_written = Some ''console.log(2)'', f_sigint = False\<rparr>) \<rparr>"

text \<open>A reviewer that finds nothing and reports a negative cost.\<close>

definition refunding_reviewer :: engine where
  "refunding_reviewer =
     \<lparr> detect_engine = (\<lambda>n. \<lparr>d_outcome = Inr \<lparr>det_issues = Some [], det_cost = Some (- 1)\<rparr>,
                                d_sigint = False\<rparr>),
       fix_engine = (\<lambda>n. \<lparr>f_outcome = Inl timed_out, f_written = None, f_sigint = False\<rparr>) \<rparr>"

text \<open>No cost that the engine reports exceeds \<open>hi\<close>.\<close>

definition capped_costs :: "engine \<Rightarrow> cost \<Rightarrow> bool" where
  "capped_costs env hi \<longleftrightarrow>
     (\<forall>n. case d_outcome (detect_engine env n) of Inr d \<Rightarrow> js_or (det_cost d) 0 \<le> hi | Inl e \<Rightarrow> True) \<and>
     (\<forall>n. case f_outcome (fix_engine env n) of Inr r \<Rightarrow> js_or (fr_cost r) 0 \<le> hi | Inl e \<Rightarrow> True)"

text \<open>
  The most that \<open>totalCost\<close> can be after a cycle that works on one file, when it was \<open>t\<close>
  before the cycle and no reported cost exceeds \<open>hi\<close>: the cycle adds the detection cost,
  then the fix cost, then the verification estimate \<^verbatim>\<open>0.02\<close>.
\<close>

definition cycle_cap :: "cost \<Rightarrow> cost \<Rightarrow> cost" where
  "cycle_cap hi t = js_plus (js_plus (js_plus t hi) hi) (round64 (1 / 50))"

text \<open>
  Every detection call resolves with exactly one issue, on the file \<open>f\<close>, that counts as
  auto-fixable.
\<close>

definition always_one_issue :: "engine \<Rightarrow> config \<Rightarrow> string \<Rightarrow> bool" where
  "always_one_issue env cfg f \<longleftrightarrow>
     (\<forall>n. case d_outcome (detect_engine env n) of
            Inr d \<Rightarrow> (case det_issues d of
                        Some [i] \<Rightarrow> i_file i = f \<and> inferAutoFixable cfg i
                      | _ \<Rightarrow> False)
          | Inl e \<Rightarrow> False)"

text \<open>The state in which the main loop starts, and a state in which the budget is spent.\<close>

definition loop_entry :: sys where
  "loop_entry = emit (RalphStarted (Some 3) (Some 20)) (initialSys sample_disk 1700)"

definition spent_state :: sys where
  "spent_state = loop_entry\<lparr>rs := (rs loop_entry)\<lparr>cycle := 1, totalCost := 20\<rparr>\<rparr>"

text \<open>
  The state in which the \<^verbatim>\<open>try\<close> block for a file starts when backups are on:
  \<^verbatim>\<open>fix_started\<close> has been emitted and the backup has been made.
\<close>

definition tryEntry :: "config \<Rightarrow> issue list \<Rightarrow> string \<Rightarrow> sys \<Rightarrow> sys" where
  "tryEntry cfg issues f s =
     snd (backupFile f (emit (FixStarted f (Some (map issueId (getAutoFixableForFile cfg issues f)))) s))"

text \<open>A fixer that times out on every attempt after it has damaged the file.\<close>

definition botched_fixer :: engine where
  "botched_fixer =
     \<lparr> detect_engine = (\<lambda>n. \<lparr>d_outcome = Inr \<lparr>det_issues = Some [one_issue], det_cost = None\<rparr>,
                                d_sigint = False\<rparr>),
       fix_engine = (\<lambda>n. \<lparr>f_outcome = Inl timed_out, f_written = Some ''cons'', f_sigint = False\<rparr>) \<rparr>"

definition other_issue :: issue where
  "other_issue = \<lparr>i_file = ''b.ts'', i_line = 3, i_severity = ''medium'', i_type = ''debugger-statement'',
     i_message = ''debugger statement'', i_autoFixable = None\<rparr>"

definition two_files :: "string \<rightharpoonup> string" where
  "two_files = [''a.ts'' \<mapsto> ''console.log(1)'', ''b.ts'' \<mapsto> ''debugger;'']"

definition without_backups :: config where
  "without_backups = defaultConfig\<lparr>backupFiles := False\<rparr>"

text \<open>
  The dashboard's \<open>totalCost\<close> after the reducer has applied a list of emitted events,
  starting from the state in which the module is loaded.
\<close>

definition dash_cost :: "(nat \<times> event) list \<Rightarrow> cost" where
  "dash_cost evs = d_totalCost (apply_events initialDashState evs)"

text \<open>No event of the list lowers the dashboard's \<open>totalCost\<close>.\<close>

definition dash_cost_monotone :: "(nat \<times> event) list \<Rightarrow> bool" where
  "dash_cost_monotone evs \<longleftrightarrow> (\<forall>k < length evs. dash_cost (take k evs) \<le> dash_cost (take (Suc k) evs))"

text \<open>
  The link between the watcher and the dashboard: the events emitted so far never lowered
  the dashboard's total, which is at most the watcher's, and both totals are values of the
  number format.
\<close>

definition cost_inv :: "sys \<Rightarrow> bool" where
  "cost_inv s \<longleftrightarrow> dash_cost_monotone (emitted s) \<and> dash_cost (emitted s) \<le> totalCost (rs s) \<and>
     is_double (dash_cost (emitted s)) \<and> is_double (totalCost (rs s))"

section \<open>Properties of the number format\<close>

lemma rne_of_int [simp]: "rne (of_int n) = n"
  by (simp add: rne_def)

lemma rne_floor: "\<lfloor>x\<rfloor> \<le> rne x" "rne x \<le> \<lfloor>x\<rfloor> + 1"
  by (simp_all add: rne_def Let_def)

lemma rne_mono: "x \<le> y \<Longrightarrow> rne x \<le> rne y"
proof -
  assume xy: "x \<le> y"
  then have "\<lfloor>x\<rfloor> \<le> \<lfloor>y\<rfloor>" by (rule floor_mono)
  then consider "\<lfloor>x\<rfloor> = \<lfloor>y\<rfloor>" | "\<lfloor>x\<rfloor> + 1 \<le> \<lfloor>y\<rfloor>" by linarith
  then show ?thesis
  proof cases
    case 1
    then show ?thesis using xy by (auto simp: rne_def Let_def)
  next
    case 2
    then show ?thesis using rne_floor(2)[of x] rne_floor(1)[of y] by linarith
  qed
qed

lemma bitlen_powi:
  assumes "0 < p"
  shows "2 powi (bitlen p - 1) \<le> (of_int p :: rat)" "(of_int p :: rat) < 2 powi bitlen p"
proof -
  have b: "2 ^ nat (bitlen p - 1) \<le> p" "p < 2 ^ nat (bitlen p)"
    using bitlen_bounds[OF assms] by simp_all
  have pos: "0 < bitlen p" using assms bitlen_eq_zero_iff[of p] bitlen_nonneg[of p] by linarith
  have "(of_int (2 ^ nat (bitlen p - 1)) :: rat) \<le> of_int p" using b(1) by (simp only: of_int_le_iff)
  then show "2 powi (bitlen p - 1) \<le> (of_int p :: rat)"
    using pos by (simp add: power_int_def)
  have "(of_int p :: rat) < of_int (2 ^ nat (bitlen p))" using b(2) by (simp only: of_int_less_iff)
  then show "(of_int p :: rat) < 2 powi bitlen p"
    using pos by (simp add: power_int_def)
qed

lemma expo_bounds:
  assumes "0 < x"
  shows "2 powi expo x \<le> x" "x < 2 powi (expo x + 1)"
proof -
  obtain p q where pq: "quotient_of x = (p, q)" by (cases "quotient_of x")
  have q: "0 < q" using quotient_of_denom_pos[OF pq] .
  have x: "x = of_int p / of_int q" using quotient_of_div[OF pq] .
  have p: "0 < p" using assms x q by (simp add: zero_less_divide_iff)
  let ?e = "bitlen p - bitlen q"
  have lo: "2 powi (?e - 1) < x"
  proof -
    have "2 powi (?e - 1) = (2 powi (bitlen p - 1) :: rat) / 2 powi bitlen q"
      by (simp add: power_int_diff)
    also have "\<dots> \<le> of_int p / 2 powi bitlen q"
      using bitlen_powi(1)[OF p] by (simp add: divide_right_mono)
    also have "\<dots> < of_int p / of_int q"
      using bitlen_powi(2)[OF q] p q by (simp add: divide_strict_left_mono)
    finally show ?thesis using x by simp
  qed
  have hi: "x < 2 powi (?e + 1)"
  proof -
    have "x = of_int p / of_int q" by (rule x)
    also have "\<dots> < 2 powi bitlen p / of_int q"
      using bitlen_powi(2)[OF p] q by (simp add: divide_strict_right_mono)
    also have "\<dots> \<le> 2 powi bitlen p / 2 powi (bitlen q - 1)"
      using bitlen_powi(1)[OF q] q by (simp add: divide_left_mono)
    also have "\<dots> = 2 powi (?e + 1)"
      by (simp add: power_int_diff power_int_add)
    finally show ?thesis .
  qed
  show "2 powi expo x \<le> x" using lo by (auto simp: expo_def pq Let_def)
  show "x < 2 powi (expo x + 1)" using hi by (auto simp: expo_def pq Let_def not_le)
qed

lemma expo_unique:
  assumes "0 < x" "2 powi k \<le> x" "x < 2 powi (k + 1)"
  shows "expo x = k"
proof (rule ccontr)
  assume ne: "expo x \<noteq> k"
  note b = expo_bounds[OF assms(1)]
  show False
  proof (cases "expo x < k")
    case True
    then have "(2::rat) powi (expo x + 1) \<le> 2 powi k" by (intro power_int_increasing) simp_all
    then show False using b(2) assms(2) by linarith
  next
    case False
    then have "(2::rat) powi (k + 1) \<le> 2 powi expo x" using ne by (intro power_int_increasing) simp_all
    then show False using b(1) assms(3) by linarith
  qed
qed

lemma expo_mono: "0 < x \<Longrightarrow> x \<le> y \<Longrightarrow> expo x \<le> expo y"
proof (rule ccontr)
  assume a: "0 < x" "x \<le> y" "\<not> expo x \<le> expo y"
  then have "(2::rat) powi (expo y + 1) \<le> 2 powi expo x" by (intro power_int_increasing) simp_all
  then show False using expo_bounds(1)[OF a(1)] expo_bounds(2)[of y] a(1,2) by linarith
qed

lemma ulp_exp_ge: "- 1074 \<le> ulp_exp x"
  by (simp add: ulp_exp_def)

lemma rne_le: "x \<le> of_int n \<Longrightarrow> rne x \<le> n"
  using rne_mono[of x "of_int n"] by simp

lemma rne_ge: "of_int n \<le> x \<Longrightarrow> n \<le> rne x"
  using rne_mono[of "of_int n" x] by simp

lemma scaled_upper:
  assumes "0 < x"
  shows "x / 2 powi ulp_exp x < 2 ^ 53"
proof -
  have "x < 2 powi (expo x + 1)" using expo_bounds(2)[OF assms] .
  also have "\<dots> \<le> 2 powi (ulp_exp x + 53)"
    by (intro power_int_increasing) (simp_all add: ulp_exp_def)
  also have "\<dots> = 2 powi ulp_exp x * 2 ^ 53"
    by (simp add: power_int_add)
  finally show ?thesis by (simp add: pos_divide_less_eq mult.commute)
qed

lemma scaled_lower:
  assumes "0 < x" "- 1022 \<le> expo x"
  shows "2 ^ 52 \<le> x / 2 powi ulp_exp x"
proof -
  have e: "ulp_exp x = expo x - 52" using assms(2) by (simp add: ulp_exp_def)
  have "2 powi ulp_exp x * 2 ^ 52 = (2::rat) powi (ulp_exp x + 52)"
    by (simp add: power_int_add)
  also have "\<dots> \<le> x" using expo_bounds(1)[OF assms(1)] by (simp add: e)
  finally show ?thesis by (simp add: pos_le_divide_eq mult.commute)
qed

lemma scaled_subnormal:
  assumes "0 < x" "expo x < - 1022"
  shows "x / 2 powi ulp_exp x < 2 ^ 52"
proof -
  have e: "ulp_exp x = - 1074" using assms(2) by (simp add: ulp_exp_def)
  have "x < 2 powi (expo x + 1)" using expo_bounds(2)[OF assms(1)] .
  also have "\<dots> \<le> 2 powi (ulp_exp x + 52)"
    using assms(2) by (intro power_int_increasing) (simp_all add: e)
  also have "\<dots> = 2 powi ulp_exp x * 2 ^ 52"
    by (simp add: power_int_add)
  finally show ?thesis by (simp add: pos_divide_less_eq mult.commute)
qed

lemma mantissa_bounds:
  assumes "0 < x"
  shows "0 \<le> rne (x / 2 powi ulp_exp x)" "rne (x / 2 powi ulp_exp x) \<le> 2 ^ 53"
    "- 1022 \<le> expo x \<Longrightarrow> 2 ^ 52 \<le> rne (x / 2 powi ulp_exp x)"
    "expo x < - 1022 \<Longrightarrow> rne (x / 2 powi ulp_exp x) \<le> 2 ^ 52"
proof -
  show "0 \<le> rne (x / 2 powi ulp_exp x)"
    using assms by (intro rne_ge) simp
  show "rne (x / 2 powi ulp_exp x) \<le> 2 ^ 53"
    using scaled_upper[OF assms] by (intro rne_le) simp
  show "2 ^ 52 \<le> rne (x / 2 powi ulp_exp x)" if "- 1022 \<le> expo x"
    using scaled_lower[OF assms that] by (intro rne_ge) simp
  show "rne (x / 2 powi ulp_exp x) \<le> 2 ^ 52" if "expo x < - 1022"
    using scaled_subnormal[OF assms that] by (intro rne_le) simp
qed

lemma round_pos_nonneg: "0 < x \<Longrightarrow> 0 \<le> round_pos x"
  using mantissa_bounds(1)[of x] by (simp add: round_pos_def)

lemma round_pos_upper:
  assumes "0 < x"
  shows "round_pos x \<le> 2 powi (ulp_exp x + 53)"
proof -
  have "(of_int (rne (x / 2 powi ulp_exp x)) :: rat) \<le> of_int (2 ^ 53)"
    using mantissa_bounds(2)[OF assms] by (simp only: of_int_le_iff)
  then have "round_pos x \<le> 2 ^ 53 * 2 powi ulp_exp x"
    by (simp add: round_pos_def)
  then show ?thesis by (simp add: power_int_add mult.commute)
qed

lemma round_pos_lower:
  assumes "0 < x" "- 1022 \<le> expo x"
  shows "2 powi expo x \<le> round_pos x"
proof -
  have e: "ulp_exp x = expo x - 52" using assms(2) by (simp add: ulp_exp_def)
  have "(of_int (2 ^ 52) :: rat) \<le> of_int (rne (x / 2 powi ulp_exp x))"
    using mantissa_bounds(3)[OF assms] by (simp only: of_int_le_iff)
  then have "2 ^ 52 * 2 powi ulp_exp x \<le> round_pos x"
    by (simp add: round_pos_def)
  moreover have "(2::rat) ^ 52 * 2 powi ulp_exp x = 2 powi expo x"
    using power_int_add[of "2::rat" "ulp_exp x" 52] by (simp add: e mult.commute)
  ultimately show ?thesis by simp
qed

lemma round_pos_mono:
  assumes "0 < x" "x \<le> y"
  shows "round_pos x \<le> round_pos y"
proof -
  have y: "0 < y" using assms by simp
  have le: "ulp_exp x \<le> ulp_exp y" using expo_mono[OF assms] by (simp add: ulp_exp_def)
  show ?thesis
  proof (cases "ulp_exp x = ulp_exp y")
    case True
    have "x / 2 powi ulp_exp y \<le> y / 2 powi ulp_exp y"
      using assms(2) by (simp add: divide_right_mono)
    then have "rne (x / 2 powi ulp_exp y) \<le> rne (y / 2 powi ulp_exp y)" by (rule rne_mono)
    then show ?thesis by (simp add: round_pos_def True)
  next
    case False
    then have lt: "ulp_exp x < ulp_exp y" using le by simp
    then have ey: "- 1022 \<le> expo y" "ulp_exp y = expo y - 52"
      by (auto simp: ulp_exp_def max_def split: if_splits)
    have "round_pos x \<le> 2 powi (ulp_exp x + 53)" by (rule round_pos_upper[OF assms(1)])
    also have "\<dots> \<le> 2 powi expo y"
      using lt ey(2) by (intro power_int_increasing) simp_all
    also have "\<dots> \<le> round_pos y" by (rule round_pos_lower[OF y ey(1)])
    finally show ?thesis .
  qed
qed

text \<open>
  The positive values of the format: a mantissa of at most 53 bits, which has all 53 unless
  the exponent is the least one.
\<close>

lemma round_pos_fix:
  assumes m: "0 < m" "m \<le> 2 ^ 53" and q: "- 1074 \<le> q" and n: "- 1074 < q \<Longrightarrow> 2 ^ 52 \<le> m"
  shows "round_pos (of_int m * 2 powi q) = of_int m * 2 powi q"
proof -
  let ?y = "of_int m * (2::rat) powi q"
  have y: "0 < ?y" using m(1) by simp
  have fx: "round_pos ?y = ?y" if "ulp_exp ?y = q"
    by (simp add: round_pos_def that)
  have up: "?y < 2 powi (q + 53)" if "m < 2 ^ 53"
  proof -
    have "(of_int m :: rat) < of_int (2 ^ 53)" using that by (simp only: of_int_less_iff)
    then have "?y < 2 ^ 53 * 2 powi q" by simp
    then show ?thesis by (simp add: power_int_add mult.commute)
  qed
  show ?thesis
  proof (cases "m = 2 ^ 53")
    case True
    have yy: "?y = 2 powi (q + 53)" by (simp add: True power_int_add mult.commute)
    have "expo ?y = q + 53"
      unfolding yy by (rule expo_unique) (simp_all add: power_int_add)
    then have u: "ulp_exp ?y = q + 1" using q by (simp add: ulp_exp_def)
    have "?y = of_int (2 ^ 52) * 2 powi (q + 1)"
      by (simp add: True power_int_add)
    then have "?y / 2 powi (q + 1) = of_int (2 ^ 52)" by simp
    then have "rne (?y / 2 powi ulp_exp ?y) = 2 ^ 52"
      unfolding u by (simp only: rne_of_int)
    then show ?thesis unfolding round_pos_def u using \<open>?y = of_int (2 ^ 52) * 2 powi (q + 1)\<close>
      by simp
  next
    case False
    then have lt: "m < 2 ^ 53" using m(2) by simp
    show ?thesis
    proof (cases "2 ^ 52 \<le> m")
      case True
      have "(of_int (2 ^ 52) :: rat) \<le> of_int m" using True by (simp only: of_int_le_iff)
      then have "2 ^ 52 * 2 powi q \<le> ?y" by simp
      then have lo: "2 powi (q + 52) \<le> ?y" by (simp add: power_int_add mult.commute)
      have "q + 52 + 1 = q + 53" by simp
      then have "expo ?y = q + 52"
        using lo up[OF lt] by (intro expo_unique[OF y]) (simp_all only:)
      then have "ulp_exp ?y = q" using q by (simp add: ulp_exp_def)
      then show ?thesis by (rule fx)
    next
      case False
      then have q': "q = - 1074" using n q by force
      have "(of_int m :: rat) < of_int (2 ^ 52)" using False by (simp only: of_int_less_iff)
      then have "?y < 2 ^ 52 * 2 powi q" by simp
      then have "?y < 2 powi (- 1022)"
        using power_int_add[of "2::rat" q 52] by (simp add: q' mult.commute)
      then have "2 powi expo ?y < (2::rat) powi (- 1022)"
        using expo_bounds(1)[OF y] by linarith
      then have "expo ?y < - 1022"
        using power_int_increasing[of "- 1022" "expo ?y" "2::rat"] by (cases "expo ?y < - 1022") simp_all
      then have "ulp_exp ?y = q" by (simp add: ulp_exp_def q')
      then show ?thesis by (rule fx)
    qed
  qed
qed

lemma round_pos_idem:
  assumes "0 < x" "round_pos x \<noteq> 0"
  shows "round_pos (round_pos x) = round_pos x"
proof -
  let ?m = "rne (x / 2 powi ulp_exp x)"
  have m0: "0 < ?m" using assms(2) mantissa_bounds(1)[OF assms(1)]
    by (auto simp: round_pos_def less_le)
  have n: "2 ^ 52 \<le> ?m" if "- 1074 < ulp_exp x"
  proof -
    from that have "- 1022 \<le> expo x" by (simp add: ulp_exp_def max_def split: if_splits)
    then show ?thesis by (rule mantissa_bounds(3)[OF assms(1)])
  qed
  show ?thesis
    unfolding round_pos_def[of x]
    by (rule round_pos_fix[OF m0 mantissa_bounds(2)[OF assms(1)] ulp_exp_ge n])
qed

lemma round64_zero [simp]: "round64 0 = 0"
  by (simp add: round64_def)

lemma round64_minus: "round64 (- x) = - round64 x"
  by (simp add: round64_def)

lemma round64_nonneg: "0 \<le> x \<Longrightarrow> 0 \<le> round64 x"
  using round_pos_nonneg[of x] by (simp add: round64_def)

lemma round64_nonpos: "x \<le> 0 \<Longrightarrow> round64 x \<le> 0"
  using round_pos_nonneg[of "- x"] by (simp add: round64_def)

lemma round64_mono: "x \<le> y \<Longrightarrow> round64 x \<le> round64 y"
proof -
  assume xy: "x \<le> y"
  consider "0 < x" | "y < 0" | "x \<le> 0" "0 \<le> y" by linarith
  then show ?thesis
  proof cases
    case 1
    then show ?thesis using xy round_pos_mono[of x y] by (simp add: round64_def)
  next
    case 2
    then show ?thesis using xy round_pos_mono[of "- y" "- x"] by (simp add: round64_def)
  next
    case 3
    then show ?thesis using round64_nonneg[of y] round64_nonpos[of x] by linarith
  qed
qed

lemma round64_idem [simp]: "round64 (round64 x) = round64 x"
proof -
  have pos: "round64 (round64 x) = round64 x" if "0 < x" for x
  proof (cases "round_pos x = 0")
    case True
    then show ?thesis using that by (simp add: round64_def)
  next
    case False
    then have "0 < round_pos x" using round_pos_nonneg[OF that] by simp
    then show ?thesis using that round_pos_idem[OF that False] by (simp add: round64_def)
  qed
  consider "x = 0" | "0 < x" | "0 < - x" by linarith
  then show ?thesis
  proof cases
    case 3
    have "round64 (round64 x) = - round64 (round64 (- x))" by (simp add: round64_minus)
    then show ?thesis using pos[OF 3] by (simp add: round64_minus)
  qed (simp_all add: pos)
qed

lemma is_double_round64 [simp]: "is_double (round64 x)"
  by (simp add: is_double_def)

lemma is_double_0 [simp]: "is_double 0"
  by (simp add: is_double_def)

lemma is_double_js_plus [simp]: "is_double (js_plus a b)"
  by (simp add: js_plus_def)

lemma js_plus_mono: "a \<le> a' \<Longrightarrow> b \<le> b' \<Longrightarrow> js_plus a b \<le> js_plus a' b'"
  unfolding js_plus_def by (intro round64_mono add_mono)

lemma js_plus_ge: "is_double a \<Longrightarrow> 0 \<le> b \<Longrightarrow> a \<le> js_plus a b"
proof -
  assume a: "is_double a" and b: "0 \<le> b"
  have "0 \<le> round64 b" using b by (rule round64_nonneg)
  then have "round64 a \<le> round64 (a + round64 b)" by (intro round64_mono) simp
  then show ?thesis using a by (simp add: js_plus_def is_double_def)
qed

lemma js_plus_0 [simp]: "is_double a \<Longrightarrow> js_plus a 0 = a"
  by (simp add: js_plus_def is_double_def)

lemma js_plus_0_left [simp]: "js_plus 0 b = round64 b"
  by (simp add: js_plus_def)

lemma js_ge_raw: "b \<le> a \<Longrightarrow> js_ge a b"
  by (simp add: js_ge_def round64_mono)

lemma js_ge_refl [simp]: "js_ge a a"
  by (simp add: js_ge_def)

lemma js_ge_doubles: "is_double a \<Longrightarrow> is_double b \<Longrightarrow> js_ge a b \<longleftrightarrow> b \<le> a"
  by (simp add: js_ge_def is_double_def)


lemma js_plus_doubles: "is_double a \<Longrightarrow> is_double b \<Longrightarrow> js_plus a b = round64 (a + b)"
  by (simp add: js_plus_def is_double_def)

lemma estimate_nonneg [simp]: "0 \<le> round64 (1 / 50)"
  by (rule round64_nonneg) simp

lemma sample_doubles [simp]:
  "round64 (1 / 8) = 1 / 8" "round64 (1 / 4) = 1 / 4" "round64 20 = 20" "round64 25 = 25"
  "round64 (- 1) = - 1"
  by code_simp+

lemma sample_below_limit [simp]: "\<not> js_ge 0 20"
  by (simp add: js_ge_def)

section \<open>Properties of the dashboard\<close>

lemma set_add_set [simp]: "set (set_add x xs) = insert x (set xs)"
  by (auto simp: set_add_def)

lemma set_delete_set [simp]: "set (set_delete x xs) = set xs - {x}"
  by (auto simp: set_delete_def)

lemma detection_add_completed [simp]: "completed (detection_add s i) = completed s"
  by (simp add: detection_add_def Let_def)

lemma detection_add_keys:
  "set (completed s) \<inter> fst ` set (d_issues s) = {} \<Longrightarrow>
   set (completed (detection_add s i)) \<inter> fst ` set (d_issues (detection_add s i)) = {}"
  by (auto simp: detection_add_def Let_def dom_update)

lemma foldl_detection_add_completed [simp]: "completed (foldl detection_add s l) = completed s"
  by (induction l arbitrary: s) simp_all

lemma foldl_detection_add:
  "set (completed s) \<inter> fst ` set (d_issues s) = {} \<Longrightarrow>
   set (completed (foldl detection_add s l)) \<inter> fst ` set (d_issues (foldl detection_add s l)) = {}"
proof (induction l arbitrary: s)
  case Nil then show ?case by simp
next
  case (Cons i l)
  from Cons.prems have "set (completed (detection_add s i)) \<inter> fst ` set (d_issues (detection_add s i)) = {}"
    by (rule detection_add_keys)
  from Cons.IH[OF this] show ?case by simp
qed

lemma fix_started_one_inv:
  "set (completed s) \<inter> fst ` set (d_issues s) = {} \<Longrightarrow>
   set (completed (fix_started_one s k)) \<inter> fst ` set (d_issues (fix_started_one s k)) = {}"
  by (simp add: fix_started_one_def dom_map_entry)

lemma fix_failed_one_inv:
  "set (completed s) \<inter> fst ` set (d_issues s) = {} \<Longrightarrow>
   set (completed (fix_failed_one s k)) \<inter> fst ` set (d_issues (fix_failed_one s k)) = {}"
  by (simp add: fix_failed_one_def dom_map_entry)

lemma keys_delete: "fst ` set (AList.delete k al) = fst ` set al - {k}"
proof -
  have "set (map fst (AList.delete k al)) = set (map fst al) - {k}"
    by (simp add: delete_keys)
  then show ?thesis by simp
qed

lemma fix_fixed_one_inv:
  "set (completed s) \<inter> fst ` set (d_issues s) = {} \<Longrightarrow>
   set (completed (fix_fixed_one s k)) \<inter> fst ` set (d_issues (fix_fixed_one s k)) = {}"
  by (auto simp: fix_fixed_one_def keys_delete)

lemma foldl_inv:
  assumes "\<And>s k. P s \<Longrightarrow> P (f s k)"
  shows "P s \<Longrightarrow> P (foldl f s l)"
  by (induction l arbitrary: s) (auto intro: assms)


lemma keys_map_progress:
  "fst ` (\<lambda>(k, i). if c k i then (k, g i) else (k, i)) ` A = fst ` A"
  by (force split: if_splits)

lemma updateRalphState_inv:
  "set (completed s) \<inter> fst ` set (d_issues s) = {} \<Longrightarrow>
   set (completed (updateRalphState now ev s)) \<inter> fst ` set (d_issues (updateRalphState now ev s)) = {}"
proof (cases ev)
  case (DetectionComplete iss af c)
  have "set (completed (s\<lparr>d_issues := [], fixing := []\<rparr>)) \<inter> fst ` set (d_issues (s\<lparr>d_issues := [], fixing := []\<rparr>)) = {}"
    by simp
  from foldl_detection_add[OF this] show ?thesis using DetectionComplete
    by (cases iss; cases c) (simp_all add: Let_def)
next
  case (FixStarted f ids)
  assume inv: "set (completed s) \<inter> fst ` set (d_issues s) = {}"
  show ?thesis using FixStarted inv
    by (cases ids) (simp_all add: foldl_inv[where P="\<lambda>s. set (completed s) \<inter> fst ` set (d_issues s) = {}", OF fix_started_one_inv])
next
  case (FixComplete f ok fixed failed)
  assume inv: "set (completed s) \<inter> fst ` set (d_issues s) = {}"
  let ?P = "\<lambda>s. set (completed s) \<inter> fst ` set (d_issues s) = {}"
  have 1: "?P (case fixed of None \<Rightarrow> s | Some l \<Rightarrow> foldl fix_fixed_one s l)"
    using inv by (cases fixed) (simp_all add: foldl_inv[where P="?P", OF fix_fixed_one_inv])
  show ?thesis using FixComplete 1
    by (cases failed) (simp_all add: Let_def foldl_inv[where P="?P", OF fix_failed_one_inv])
next
  case (FixProgress f p)
  assume inv: "set (completed s) \<inter> fst ` set (d_issues s) = {}"
  show ?thesis using FixProgress inv by (simp add: keys_map_progress)
qed (simp_all add: Let_def)

lemma apply_events_inv:
  "set (completed s) \<inter> fst ` set (d_issues s) = {} \<Longrightarrow>
   set (completed (apply_events s evs)) \<inter> fst ` set (d_issues (apply_events s evs)) = {}"
  unfolding apply_events_def
  by (induction evs arbitrary: s) (auto simp: updateRalphState_inv split: prod.splits)

lemma foldl_fix_fixed:
  "set (completed (foldl fix_fixed_one s l)) = set (completed s) \<union> set l \<and>
   fst ` set (d_issues (foldl fix_fixed_one s l)) = fst ` set (d_issues s) - set l"
  by (induction l arbitrary: s) (auto simp: fix_fixed_one_def keys_delete)

lemma foldl_fix_failed:
  "completed (foldl fix_failed_one s l) = completed s \<and>
   fst ` set (d_issues (foldl fix_failed_one s l)) = fst ` set (d_issues s)"
  by (induction l arbitrary: s) (auto simp: fix_failed_one_def dom_map_entry)

lemma detection_complete_disjoint:
  "set (completed (updateRalphState now (DetectionComplete iss af c) s)) = set (completed s) \<and>
   set (completed s) \<inter> fst ` set (d_issues (updateRalphState now (DetectionComplete iss af c) s)) = {}"
proof -
  let ?s1 = "s\<lparr>d_issues := [], fixing := []\<rparr>"
  have "set (completed ?s1) \<inter> fst ` set (d_issues ?s1) = {}" by simp
  from foldl_detection_add[OF this] show ?thesis
    by (cases iss; cases c) (simp_all add: Let_def)
qed

lemma fix_complete_moves:
  "k \<in> set fixed \<Longrightarrow>
   k \<in> set (completed (updateRalphState now (FixComplete f ok (Some fixed) failed) s)) \<and>
   k \<notin> fst ` set (d_issues (updateRalphState now (FixComplete f ok (Some fixed) failed) s))"
  by (cases failed) (simp_all add: Let_def foldl_fix_fixed foldl_fix_failed)

lemma initial_inv: "set (completed initialDashState) \<inter> fst ` set (d_issues initialDashState) = {}"
  by (simp add: initialDashState_def)

text \<open>
  Claim C1. Whatever events the reducer has applied since the module was loaded, after each
  application no id is both in \<open>completed\<close> and a key of \<open>issues\<close>. In any state,
  \<^verbatim>\<open>detection_complete\<close> stores no id that is in \<open>completed\<close>, and
  \<^verbatim>\<open>fix_complete\<close> leaves every fixed id in \<open>completed\<close> and out of \<open>issues\<close>.
\<close>

theorem completed_issues_disjoint:
  "set (completed (apply_events initialDashState (take n evs))) \<inter>
     fst ` set (d_issues (apply_events initialDashState (take n evs))) = {}
   \<and> (\<forall>k \<in> set (completed s).
         k \<notin> fst ` set (d_issues (updateRalphState now (DetectionComplete iss af c) s)))
   \<and> (\<forall>k \<in> set fixed.
         k \<in> set (completed (updateRalphState now (FixComplete f ok (Some fixed) failed) s)) \<and>
         k \<notin> fst ` set (d_issues (updateRalphState now (FixComplete f ok (Some fixed) failed) s)))"
proof (intro conjI ballI)
  show "set (completed (apply_events initialDashState (take n evs))) \<inter>
     fst ` set (d_issues (apply_events initialDashState (take n evs))) = {}"
    by (rule apply_events_inv[OF initial_inv])
next
  fix k assume "k \<in> set (completed s)"
  then show "k \<notin> fst ` set (d_issues (updateRalphState now (DetectionComplete iss af c) s))"
    using detection_complete_disjoint[of now iss af c s] by blast
next
  fix k assume "k \<in> set fixed"
  then show "k \<in> set (completed (updateRalphState now (FixComplete f ok (Some fixed) failed) s))"
    using fix_complete_moves by blast
next
  fix k assume "k \<in> set fixed"
  then show "k \<notin> fst ` set (d_issues (updateRalphState now (FixComplete f ok (Some fixed) failed) s))"
    using fix_complete_moves by blast
qed

lemma sample_state:
  "completed (apply_events initialDashState sample_events) = [''a.ts:10''] \<and>
   map fst (d_issues (apply_events initialDashState sample_events)) = [''b.ts:3'']"
  by (simp add: apply_events_def sample_events_def initialDashState_def issue_a10_def issue_b3_def
      Let_def detection_add_def event_issue_id_def digits.simps fix_started_one_def fix_fixed_one_def
      set_add_def set_delete_def js_or_def)


theorem completed_issues_disjoint_witness:
  "set (completed (apply_events initialDashState sample_events)) \<inter>
     fst ` set (d_issues (apply_events initialDashState sample_events)) = {}
   \<and> completed (apply_events initialDashState sample_events) = [''a.ts:10'']
   \<and> map fst (d_issues (apply_events initialDashState sample_events)) = [''b.ts:3'']
   \<and> ''a.ts:10'' \<notin> fst ` set (d_issues (updateRalphState 7
          (DetectionComplete (Some [issue_a10, issue_b3]) 1 (Some (1/4)))
          (apply_events initialDashState (take 6 sample_events))))
   \<and> ''a.ts:10'' \<in> set (completed (updateRalphState 5
          (FixComplete ''a.ts'' True (Some [''a.ts:10'']) (Some []))
          (apply_events initialDashState (take 4 sample_events))))"
proof -
  have c6: "''a.ts:10'' \<in> set (completed (apply_events initialDashState (take 6 sample_events)))"
    by (simp add: apply_events_def sample_events_def initialDashState_def issue_a10_def issue_b3_def
      Let_def detection_add_def event_issue_id_def digits.simps fix_started_one_def fix_fixed_one_def
      set_add_def set_delete_def js_or_def)
  have len: "take 7 sample_events = sample_events"
    by (simp add: sample_events_def)
  show ?thesis
    using completed_issues_disjoint[where n = 7 and evs = sample_events
        and s = "apply_events initialDashState (take 6 sample_events)" and now = 7
        and iss = "Some [issue_a10, issue_b3]" and af = 1 and c = "Some (1/4)"]
      completed_issues_disjoint[where fixed = "[''a.ts:10'']" and now = 5 and f = "''a.ts''"
        and ok = True and failed = "Some []"
        and s = "apply_events initialDashState (take 4 sample_events)"]
      c6 sample_state
    unfolding len by simp
qed

lemma foldl_field:
  assumes "\<And>s k. g (f s k) = g s"
  shows "g (foldl f s l) = g s"
  by (induction l arbitrary: s) (simp_all add: assms)

lemma started_foldl [simp]:
  "started (foldl detection_add s l1) = started s"
  "started (foldl fix_started_one s l2) = started s"
  "started (foldl fix_fixed_one s l2) = started s"
  "started (foldl fix_failed_one s l2) = started s"
  by (rule foldl_field, simp add: detection_add_def fix_started_one_def fix_fixed_one_def
      fix_failed_one_def Let_def)+

lemma started_apply_events:
  "started (apply_events s evs) = (started s \<or> (\<exists>now mc bh. (now, RalphStarted mc bh) \<in> set evs))"
proof (induction evs arbitrary: s)
  case Nil then show ?case by (simp add: apply_events_def)
next
  case (Cons e evs)
  obtain now ev where e: "e = (now, ev)" by (cases e)
  have step: "apply_events s (e # evs) = apply_events (updateRalphState now ev s) evs"
    by (simp add: apply_events_def e)
  have st: "started (updateRalphState now ev s) = (started s \<or> (\<exists>mc bh. ev = RalphStarted mc bh))"
    by (cases ev) (auto simp: Let_def split: option.splits)
  show ?case unfolding step Cons.IH st using e by auto
qed

lemma onConnection_state [simp]: "ralphState (fst (onConnection now ws srv)) = ralphState srv"
  by (simp add: onConnection_def Let_def)

lemma emitEvent_state [simp]:
  "ralphState (fst (emitEvent now ev srv)) = updateRalphState now ev (ralphState srv)"
  by (simp add: emitEvent_def Let_def split: prod.splits)

lemma server_step_state:
  "ralphState (server_step srv a) =
     (case a of Emit now ev \<Rightarrow> updateRalphState now ev (ralphState srv) | _ \<Rightarrow> ralphState srv)"
  by (cases a) simp_all

lemma server_steps_state:
  "ralphState (foldl server_step srv as) = apply_events (ralphState srv) (emitted_of as)"
proof (induction as arbitrary: srv)
  case Nil then show ?case by (simp add: apply_events_def)
next
  case (Cons a as)
  show ?case
    by (cases a) (simp_all add: Cons.IH apply_events_def)
qed

lemma send_loop:
  "foldl (send_one m) (cs, sent) l =
     (filter (\<lambda>c. c \<notin> set (filter (\<lambda>w. readyOpen w \<and> sendThrows w) l)) cs,
      sent @ map (\<lambda>w. (cid w, m)) (filter (\<lambda>w. readyOpen w \<and> \<not> sendThrows w) l))"
proof (induction l arbitrary: cs sent)
  case Nil then show ?case by simp
next
  case (Cons w l)
  have rm: "\<And>xs. removeAll w xs = filter (\<lambda>c. c \<noteq> w) xs"
    by (induct_tac xs) auto
  show ?case
  proof (cases "readyOpen w")
    case False
    then have "send_one m (cs, sent) w = (cs, sent)" by (simp add: send_one_def)
    then show ?thesis using False by (simp add: Cons.IH)
  next
    case ro: True
    show ?thesis
    proof (cases "sendThrows w")
      case True
      with ro have "send_one m (cs, sent) w = (filter (\<lambda>c. c \<noteq> w) cs, sent)"
        by (simp add: send_one_def set_delete_def rm)
      then show ?thesis using True ro by (auto simp add: Cons.IH intro: filter_cong)
    next
      case False
      with ro have "send_one m (cs, sent) w = (cs, sent @ [(cid w, m)])"
        by (simp add: send_one_def)
      then show ?thesis using False ro by (simp add: Cons.IH)
    qed
  qed
qed

lemma emitEvent_delivery:
  "isRunning srv \<Longrightarrow>
   clients (fst (emitEvent now ev srv)) = filter (\<lambda>c. \<not> (readyOpen c \<and> sendThrows c)) (clients srv) \<and>
   snd (emitEvent now ev srv) =
     map (\<lambda>w. (cid w, EventMsg ev now)) (filter (\<lambda>w. readyOpen w \<and> \<not> sendThrows w) (clients srv))"
  by (auto simp: emitEvent_def Let_def send_loop intro: filter_cong)

lemma emitEvent_not_running:
  "\<not> isRunning srv \<Longrightarrow> clients (fst (emitEvent now ev srv)) = clients srv \<and> snd (emitEvent now ev srv) = []"
  by (simp add: emitEvent_def Let_def)

text \<open>
  Claim C9, as amended. To a socket whose \<^verbatim>\<open>send\<close> does not throw, the connection handler
  sends the acknowledgment and, when the \<open>started\<close> flag is set, exactly one
  \<^verbatim>\<open>state_sync\<close> after it, to that socket only, carrying the current snapshot, whose issue
  list is as long as the \<open>issues\<close> map; no earlier event is replayed. To a socket whose
  \<^verbatim>\<open>send\<close> throws nothing is sent, and the handler throws. In both cases the state is left
  as it was. The flag is set once a \<^verbatim>\<open>ralph_started\<close> event has been applied and it is never
  cleared: a socket that connects before any run started gets the acknowledgment alone, one
  that connects after the run has ended still gets the snapshot.
\<close>

theorem state_sync_on_subscribe:
  "(\<not> sendThrows ws \<longrightarrow>
      fst (snd (onConnection now ws srv)) =
        (if started (ralphState srv)
         then [(cid ws, Connected now), (cid ws, StateSync (getSerializableState (ralphState srv)) now)]
         else [(cid ws, Connected now)]) \<and>
      \<not> snd (snd (onConnection now ws srv)))
   \<and> (sendThrows ws \<longrightarrow>
        fst (snd (onConnection now ws srv)) = [] \<and> snd (snd (onConnection now ws srv)))
   \<and> length (sn_issues (getSerializableState (ralphState srv))) = length (d_issues (ralphState srv))
   \<and> ralphState (fst (onConnection now ws srv)) = ralphState srv
   \<and> started (apply_events initialDashState evs) = (\<exists>t mc bh. (t, RalphStarted mc bh) \<in> set evs)"
  by (simp add: onConnection_def Let_def getSerializableState_def started_apply_events
      initialDashState_def)

lemma sample_started: "started (apply_events initialDashState (take 3 sample_events))"
  by (simp add: started_apply_events sample_events_def)

lemma sample_issue_count: "length (d_issues (apply_events initialDashState (take 3 sample_events))) = 2"
  by (simp add: apply_events_def sample_events_def initialDashState_def issue_a10_def issue_b3_def
      Let_def detection_add_def event_issue_id_def digits.simps js_or_def)

theorem state_sync_on_subscribe_witness:
  "fst (snd (onConnection 4 observer7 (server_of (apply_events initialDashState (take 3 sample_events))))) =
     [(7, Connected 4),
      (7, StateSync (getSerializableState (apply_events initialDashState (take 3 sample_events))) 4)]
   \<and> length (sn_issues (getSerializableState (apply_events initialDashState (take 3 sample_events)))) = 2
   \<and> fst (snd (onConnection 0 observer7 (server_of initialDashState))) = [(7, Connected 0)]
   \<and> fst (snd (onConnection 4 observer8 (server_of (apply_events initialDashState (take 3 sample_events))))) = []
   \<and> snd (snd (onConnection 4 observer8 (server_of (apply_events initialDashState (take 3 sample_events)))))"
  using state_sync_on_subscribe[where now = 4 and ws = observer7 and evs = "take 3 sample_events"
      and srv = "server_of (apply_events initialDashState (take 3 sample_events))"]
    state_sync_on_subscribe[where now = 0 and ws = observer7 and evs = "[]"
      and srv = "server_of initialDashState"]
    state_sync_on_subscribe[where now = 4 and ws = observer8 and evs = "take 3 sample_events"
      and srv = "server_of (apply_events initialDashState (take 3 sample_events))"]
    sample_started sample_issue_count
  by (simp add: server_of_def observer7_def observer8_def apply_events_def)

text \<open>
  Claim C9 as stated fails: after \<^verbatim>\<open>ralph_complete\<close> no run is active, and a socket that
  connects then, and whose \<^verbatim>\<open>send\<close> does not throw, is still sent a \<^verbatim>\<open>state_sync\<close>.
\<close>

theorem state_sync_after_run_end_counterexample:
  "fst (snd (onConnection 6 observer7 (server_of (apply_events initialDashState finished_run)))) =
     [(7, Connected 6),
      (7, StateSync (getSerializableState (apply_events initialDashState finished_run)) 6)]"
  by (simp add: onConnection_def Let_def server_of_def observer7_def started_apply_events
      finished_run_def)

text \<open>
  Claim C10. \<^verbatim>\<open>emitEvent\<close> applies the reducer whatever the server and its clients are. Two
  executions that emit the same events from the same state end in the same serializable
  state, whichever sockets connect or close in between and whether the server runs. While
  the server runs, a socket whose \<^verbatim>\<open>send\<close> throws is removed, no other socket is, and every
  other open socket receives the event once.
\<close>

theorem dashboard_state_independent_of_observers:
  "ralphState (fst (emitEvent now ev srv)) = updateRalphState now ev (ralphState srv)
   \<and> (emitted_of as1 = emitted_of as2 \<and> ralphState srv1 = ralphState srv2 \<longrightarrow>
        getSerializableState (ralphState (foldl server_step srv1 as1)) =
        getSerializableState (ralphState (foldl server_step srv2 as2)))
   \<and> (isRunning srv \<longrightarrow>
        clients (fst (emitEvent now ev srv)) =
          filter (\<lambda>c. \<not> (readyOpen c \<and> sendThrows c)) (clients srv) \<and>
        snd (emitEvent now ev srv) =
          map (\<lambda>w. (cid w, EventMsg ev now)) (filter (\<lambda>w. readyOpen w \<and> \<not> sendThrows w) (clients srv)))
   \<and> (\<not> isRunning srv \<longrightarrow>
        clients (fst (emitEvent now ev srv)) = clients srv \<and> snd (emitEvent now ev srv) = [])"
  using emitEvent_delivery[of srv now ev] emitEvent_not_running[of srv now ev]
  by (simp add: server_steps_state)

theorem dashboard_state_independent_of_observers_witness:
  "getSerializableState (ralphState (foldl server_step busy_server watched_run)) =
     getSerializableState (ralphState (foldl server_step idle_server unwatched_run))
   \<and> clients (fst (emitEvent 2 (CycleStarted 1 3) busy_server)) = [observer7, observer9]
   \<and> snd (emitEvent 2 (CycleStarted 1 3) busy_server) = [(7, EventMsg (CycleStarted 1 3) 2)]
   \<and> snd (emitEvent 2 (CycleStarted 1 3) idle_server) = []
   \<and> ralphState (fst (emitEvent 2 (CycleStarted 1 3) busy_server)) =
       ralphState (fst (emitEvent 2 (CycleStarted 1 3) idle_server))"
proof -
  have e: "emitted_of watched_run = emitted_of unwatched_run"
    by (simp add: watched_run_def unwatched_run_def)
  have r: "ralphState busy_server = ralphState idle_server"
    by (simp add: busy_server_def idle_server_def)
  have b: "isRunning busy_server" "\<not> isRunning idle_server"
    by (simp_all add: busy_server_def idle_server_def)
  show ?thesis
    using dashboard_state_independent_of_observers[where ?as1.0 = watched_run and ?as2.0 = unwatched_run
        and ?srv1.0 = busy_server and ?srv2.0 = idle_server and srv = busy_server
        and now = 2 and ev = "CycleStarted 1 3"]
      dashboard_state_independent_of_observers[where srv = idle_server
        and now = 2 and ev = "CycleStarted 1 3"] e r b
    by (simp add: busy_server_def idle_server_def observer7_def observer8_def observer9_def)
qed

declare retry_loop.simps [simp del]

lemma state_before_0 [simp]: "state_before fn s 0 = s"
  by (simp add: state_before_def)

lemma state_before_Suc: "state_before fn s (Suc k) = state_before fn (snd (fn s)) k"
  by (simp add: state_before_def funpow_Suc_right del: funpow.simps)

lemma transient_failures_Suc:
  "transient_failures fn s (Suc k) =
     ((case fst (fn s) of Inl e \<Rightarrow> \<not> isNonRetryableError e | Inr v \<Rightarrow> False) \<and>
      transient_failures fn (snd (fn s)) k)"
  unfolding transient_failures_def
  by (auto simp: less_Suc_eq_0_disj state_before_Suc)

lemma retry_loop_transient:
  "transient_failures fn s k \<Longrightarrow> a + k \<le> n \<Longrightarrow> 0 < a \<Longrightarrow>
   retry_loop fn n b a le s sl =
   retry_loop fn n b (a + k) (if k = 0 then le else
        (case fst (fn (state_before fn s (k - 1))) of Inl e \<Rightarrow> Err e | Inr v \<Rightarrow> Undefined))
     (state_before fn s k) (sl @ map (\<lambda>i. b * 2 ^ (a - 1 + i)) [0..<k])"
proof (induction k arbitrary: a s sl le)
  case 0 then show ?case by simp
next
  case (Suc k)
  from Suc.prems(1) obtain e s' where f: "fn s = (Inl e, s')" and ne: "\<not> isNonRetryableError e"
    and tf: "transient_failures fn s' k"
    by (cases "fn s"; cases "fst (fn s)") (auto simp: transient_failures_Suc)
  have lt: "a < n" using Suc.prems(2) by simp
  have step: "retry_loop fn n b a le s sl = retry_loop fn n b (a + 1) (Err e) s' (sl @ [b * 2 ^ (a - 1)])"
    using f ne lt by (subst retry_loop.simps) simp
  have m: "map (\<lambda>i. b * 2 ^ (a - Suc 0 + i)) [0..<Suc k] =
           b * 2 ^ (a - Suc 0) # map (\<lambda>i. b * 2 ^ (a + i)) [0..<k]"
    using Suc.prems(3) by (simp add: map_upt_Suc del: upt_Suc)
  have sb: "state_before fn s (Suc k) = state_before fn s' k"
    using f by (simp add: state_before_Suc)
  have le': "(if k = 0 then Err e else
        (case fst (fn (state_before fn s' (k - 1))) of Inl e \<Rightarrow> Err e | Inr v \<Rightarrow> Undefined)) =
      (case fst (fn (state_before fn s (Suc k - 1))) of Inl e \<Rightarrow> Err e | Inr v \<Rightarrow> Undefined)"
    using f by (cases k) (simp_all add: state_before_Suc)
  show ?case
    unfolding step
    using Suc.IH[OF tf, of "a + 1" "Err e" "sl @ [b * 2 ^ (a - 1)]"] Suc.prems(2) le'
    by (simp add: m sb del: upt_Suc)
qed

lemma transient_failures_0 [simp]: "transient_failures fn s 0"
  by (simp add: transient_failures_def)

lemma delays_shift:
  "map (\<lambda>i. b * 2 ^ i) [0..<k] = map (\<lambda>attempt. b * 2 ^ (attempt - Suc 0)) [Suc 0..<Suc k]"
proof -
  have "[Suc 0..<Suc k] = map Suc [0..<k]"
    by (simp add: map_Suc_upt del: upt_Suc)
  then show ?thesis by (simp add: comp_def del: upt_Suc)
qed

lemma retry_from_start:
  assumes "transient_failures fn s k" "k < n"
  shows "retry_loop fn n b 1 Undefined s [] =
     retry_loop fn n b (Suc k) (if k = 0 then Undefined else
        (case fst (fn (state_before fn s (k - 1))) of Inl e \<Rightarrow> Err e | Inr v \<Rightarrow> Undefined))
       (state_before fn s k) (map (\<lambda>attempt. b * 2 ^ (attempt - 1)) [1..<Suc k])"
  using retry_loop_transient[OF assms(1), of 1 n b Undefined "[]"] assms(2)
  by (simp add: delays_shift del: upt_Suc)

lemma retry_success:
  assumes "k < n" "transient_failures fn s k" "fst (fn (state_before fn s k)) = Inr v"
  shows "retry_loop fn n b 1 Undefined s [] =
     (Inr v, state_before fn s (Suc k), map (\<lambda>attempt. b * 2 ^ (attempt - 1)) [1..<Suc k])"
proof -
  obtain s' where f: "fn (state_before fn s k) = (Inr v, s')"
    using assms(3) by (cases "fn (state_before fn s k)") simp
  have sb: "state_before fn s (Suc k) = s'"
    using f by (simp add: state_before_def)
  show ?thesis
    unfolding retry_from_start[OF assms(2) assms(1)] sb
    using f assms(1) by (subst retry_loop.simps) simp
qed

lemma retry_fatal:
  assumes "k < n" "transient_failures fn s k" "fst (fn (state_before fn s k)) = Inl e"
    "isNonRetryableError e"
  shows "retry_loop fn n b 1 Undefined s [] =
     (Inl (Err e), state_before fn s (Suc k), map (\<lambda>attempt. b * 2 ^ (attempt - 1)) [1..<Suc k])"
proof -
  obtain s' where f: "fn (state_before fn s k) = (Inl e, s')"
    using assms(3) by (cases "fn (state_before fn s k)") simp
  have sb: "state_before fn s (Suc k) = s'"
    using f by (simp add: state_before_def)
  show ?thesis
    unfolding retry_from_start[OF assms(2) assms(1)] sb
    using f assms(1,4) by (subst retry_loop.simps) simp
qed

lemma retry_exhausted:
  assumes "0 < n" "transient_failures fn s n" "fst (fn (state_before fn s (n - 1))) = Inl e"
  shows "retry_loop fn n b 1 Undefined s [] =
     (Inl (Err e), state_before fn s n, map (\<lambda>attempt. b * 2 ^ (attempt - 1)) [1..<Suc (n - 1)])"
proof -
  obtain k where n: "n = Suc k" using assms(1) by (cases n) auto
  have tk: "transient_failures fn s k"
    using assms(2) by (simp add: n transient_failures_def)
  have ne: "\<not> isNonRetryableError e"
    using assms(2,3) by (auto simp: n transient_failures_def dest!: spec[of _ k])
  obtain s' where f: "fn (state_before fn s k) = (Inl e, s')"
    using assms(3) by (cases "fn (state_before fn s k)") (simp add: n)
  have sb: "state_before fn s (Suc k) = s'"
    using f by (simp add: state_before_def)
  have last: "retry_loop fn (Suc k) b (Suc k) le (state_before fn s k) sl =
      retry_loop fn (Suc k) b (Suc (Suc k)) (Err e) s' sl" for le sl
    using f ne by (subst retry_loop.simps) simp
  have out: "retry_loop fn (Suc k) b (Suc (Suc k)) (Err e) s' sl = (Inl (Err e), s', sl)" for sl
    by (subst retry_loop.simps) simp
  show ?thesis
    unfolding n retry_from_start[OF tk lessI] last out sb by simp
qed

text \<open>
  Claim C6. With \<open>n\<close> the attempt limit (3 unless given) and \<open>b\<close> the base delay (1000
  unless given), \<^verbatim>\<open>withRetry\<close> runs the operation. When the first \<open>k < n\<close> calls throw
  errors that \<^verbatim>\<open>isNonRetryableError\<close> does not classify as fatal, a delay of
  \<open>b * 2 ^ (attempt - 1)\<close> follows each of them; when the next call returns, its value is
  returned; when it throws a fatal error, that error is thrown at once, with no further call
  and no delay. When all \<open>n\<close> calls throw non-fatal errors, the last error is thrown after
  \<open>n\<close> calls and \<open>n - 1\<close> delays.
\<close>

theorem withRetry_policy:
  "(let n = (case maxAttempts options of None \<Rightarrow> 3 | Some m \<Rightarrow> m);
        b = (case baseDelay options of None \<Rightarrow> 1000 | Some d \<Rightarrow> d);
        delays = (\<lambda>k. map (\<lambda>attempt. b * 2 ^ (attempt - 1)) [1..<Suc k])
    in (\<forall>k v. k < n \<and> transient_failures fn s k \<and> fst (fn (state_before fn s k)) = Inr v \<longrightarrow>
          withRetry fn options s = (Inr v, state_before fn s (Suc k), delays k))
     \<and> (\<forall>k e. k < n \<and> transient_failures fn s k \<and> fst (fn (state_before fn s k)) = Inl e \<and>
            isNonRetryableError e \<longrightarrow>
          withRetry fn options s = (Inl (Err e), state_before fn s (Suc k), delays k))
     \<and> (\<forall>e. 0 < n \<and> transient_failures fn s n \<and> fst (fn (state_before fn s (n - 1))) = Inl e \<longrightarrow>
          withRetry fn options s = (Inl (Err e), state_before fn s n, delays (n - 1))))"
  unfolding Let_def withRetry_def
proof (intro conjI allI impI)
  fix k v
  assume "k < (case maxAttempts options of None \<Rightarrow> 3 | Some m \<Rightarrow> m) \<and> transient_failures fn s k \<and>
    fst (fn (state_before fn s k)) = Inr v"
  then show "retry_loop fn (case maxAttempts options of None \<Rightarrow> 3 | Some m \<Rightarrow> m)
      (case baseDelay options of None \<Rightarrow> 1000 | Some d \<Rightarrow> d) 1 Undefined s [] =
    (Inr v, state_before fn s (Suc k),
     map (\<lambda>attempt. (case baseDelay options of None \<Rightarrow> 1000 | Some d \<Rightarrow> d) * 2 ^ (attempt - 1)) [1..<Suc k])"
    by (intro retry_success) simp_all
next
  fix k e
  assume "k < (case maxAttempts options of None \<Rightarrow> 3 | Some m \<Rightarrow> m) \<and> transient_failures fn s k \<and>
    fst (fn (state_before fn s k)) = Inl e \<and> isNonRetryableError e"
  then show "retry_loop fn (case maxAttempts options of None \<Rightarrow> 3 | Some m \<Rightarrow> m)
      (case baseDelay options of None \<Rightarrow> 1000 | Some d \<Rightarrow> d) 1 Undefined s [] =
    (Inl (Err e), state_before fn s (Suc k),
     map (\<lambda>attempt. (case baseDelay options of None \<Rightarrow> 1000 | Some d \<Rightarrow> d) * 2 ^ (attempt - 1)) [1..<Suc k])"
    by (intro retry_fatal) simp_all
next
  fix e
  assume "0 < (case maxAttempts options of None \<Rightarrow> 3 | Some m \<Rightarrow> m) \<and>
    transient_failures fn s (case maxAttempts options of None \<Rightarrow> 3 | Some m \<Rightarrow> m) \<and>
    fst (fn (state_before fn s ((case maxAttempts options of None \<Rightarrow> 3 | Some m \<Rightarrow> m) - 1))) = Inl e"
  then show "retry_loop fn (case maxAttempts options of None \<Rightarrow> 3 | Some m \<Rightarrow> m)
      (case baseDelay options of None \<Rightarrow> 1000 | Some d \<Rightarrow> d) 1 Undefined s [] =
    (Inl (Err e), state_before fn s (case maxAttempts options of None \<Rightarrow> 3 | Some m \<Rightarrow> m),
     map (\<lambda>attempt. (case baseDelay options of None \<Rightarrow> 1000 | Some d \<Rightarrow> d) * 2 ^ (attempt - 1))
       [1..<Suc ((case maxAttempts options of None \<Rightarrow> 3 | Some m \<Rightarrow> m) - 1)])"
    by (intro retry_exhausted) simp_all
qed

lemma sample_errors: "\<not> isNonRetryableError timed_out" "isNonRetryableError cli_missing"
  by code_simp+

lemma counter_states:
  "state_before flaky_op s k = s + k"
  "state_before hanging_op s k = s + k"
  "state_before unauthorised_op s k = s + k"
  by (induction k arbitrary: s) (simp_all add: state_before_Suc flaky_op_def hanging_op_def unauthorised_op_def)

theorem withRetry_policy_witness:
  "withRetry flaky_op \<lparr>maxAttempts = None, baseDelay = None\<rparr> 0 = (Inr 42, 3, [1000, 2000])
   \<and> withRetry unauthorised_op \<lparr>maxAttempts = None, baseDelay = None\<rparr> 0 = (Inl (Err cli_missing), 2, [1000])
   \<and> withRetry hanging_op \<lparr>maxAttempts = None, baseDelay = None\<rparr> 0 = (Inl (Err timed_out), 3, [1000, 2000])"
proof -
  have t1: "transient_failures flaky_op 0 2"
    by (simp add: transient_failures_def counter_states flaky_op_def sample_errors)
  have t2: "transient_failures unauthorised_op 0 1"
    by (simp add: transient_failures_def counter_states unauthorised_op_def sample_errors)
  have t3: "transient_failures hanging_op 0 3"
    by (simp add: transient_failures_def counter_states hanging_op_def sample_errors)
  note p = withRetry_policy[unfolded Let_def]
  have a: "withRetry flaky_op \<lparr>maxAttempts = None, baseDelay = None\<rparr> 0 = (Inr 42, 3, [1000, 2000])"
    using p[of "\<lparr>maxAttempts = None, baseDelay = None\<rparr>" flaky_op 0, THEN conjunct1, rule_format, of 2 42] t1
    by (simp add: counter_states flaky_op_def upt_rec)
  have b: "withRetry unauthorised_op \<lparr>maxAttempts = None, baseDelay = None\<rparr> 0 = (Inl (Err cli_missing), 2, [1000])"
    using p[of "\<lparr>maxAttempts = None, baseDelay = None\<rparr>" unauthorised_op 0, THEN conjunct2, THEN conjunct1,
        rule_format, of 1 cli_missing] t2
    by (simp add: counter_states unauthorised_op_def sample_errors upt_rec)
  have c: "withRetry hanging_op \<lparr>maxAttempts = None, baseDelay = None\<rparr> 0 = (Inl (Err timed_out), 3, [1000, 2000])"
    using p[of "\<lparr>maxAttempts = None, baseDelay = None\<rparr>" hanging_op 0, THEN conjunct2, THEN conjunct2,
        rule_format, of timed_out] t3
    by (simp add: counter_states hanging_op_def upt_rec)
  show ?thesis using a b c by simp
qed

lemma follows_refl [simp]: "follows env s s"
  by (simp add: follows_def)

lemma follows_trans: "follows env a b \<Longrightarrow> follows env b c \<Longrightarrow> follows env a c"
  unfolding follows_def by (elim conjE exE) (auto simp: order_trans)

lemma retry_loop_post:
  assumes r: "\<And>s. R s s" and t: "\<And>a b c. R a b \<Longrightarrow> R b c \<Longrightarrow> R a c"
    and st: "\<And>s. R s (snd (fn s))" and val: "\<And>s v. fst (fn s) = Inr v \<Longrightarrow> Q v"
  shows "R s (fst (snd (retry_loop fn n b a le s sl))) \<and>
         (\<forall>v. fst (retry_loop fn n b a le s sl) = Inr v \<longrightarrow> Q v)"
  using st val
proof (induction fn n b a le s sl rule: retry_loop.induct)
  case (1 fn maxA baseD attempt lastError s slept)
  note st' = "1.prems"(1) and val' = "1.prems"(2)
  show ?case
  proof (cases "attempt \<le> maxA")
    case False
    then show ?thesis by (subst (1 2) retry_loop.simps) (simp add: r)
  next
    case True
    obtain res s' where f: "fn s = (res, s')" by (cases "fn s")
    have rs': "R s s'" using st'[of s] f by simp
    show ?thesis
    proof (cases res)
      case (Inr v)
      then have "Q v" using val'[of s v] f by simp
      then show ?thesis using True f rs' Inr by (subst (1 2) retry_loop.simps) simp
    next
      case (Inl e)
      show ?thesis
      proof (cases "isNonRetryableError e")
        case True
        then show ?thesis using \<open>attempt \<le> maxA\<close> f rs' Inl by (subst (1 2) retry_loop.simps) simp
      next
        case ne: False
        show ?thesis
        proof (cases "attempt < maxA")
          case lt: True
          let ?X = "retry_loop fn maxA baseD (attempt + 1) (Err e) s' (slept @ [baseD * 2 ^ (attempt - 1)])"
          have ih: "R s' (fst (snd ?X)) \<and> (\<forall>v. fst ?X = Inr v \<longrightarrow> Q v)"
            using "1.IH"(1)[OF True f[symmetric] Inl ne lt st' val'] by simp
          then have "R s (fst (snd ?X))" using rs' t by blast
          moreover have "retry_loop fn maxA baseD attempt lastError s slept = ?X"
            using True f Inl ne lt by (subst retry_loop.simps) simp
          ultimately show ?thesis using ih by simp
        next
          case nlt: False
          let ?X = "retry_loop fn maxA baseD (attempt + 1) (Err e) s' slept"
          have ih: "R s' (fst (snd ?X)) \<and> (\<forall>v. fst ?X = Inr v \<longrightarrow> Q v)"
            using "1.IH"(2)[OF True f[symmetric] Inl ne nlt st' val'] by simp
          then have "R s (fst (snd ?X))" using rs' t by blast
          moreover have "retry_loop fn maxA baseD attempt lastError s slept = ?X"
            using True f Inl ne nlt by (subst retry_loop.simps) simp
          ultimately show ?thesis using ih by simp
        qed
      qed
    qed
  qed
qed

lemma withRetry_post:
  assumes "\<And>s. R s s" and "\<And>a b c. R a b \<Longrightarrow> R b c \<Longrightarrow> R a c"
    and "\<And>s. R s (snd (fn s))" and "\<And>s v. fst (fn s) = Inr v \<Longrightarrow> Q v"
  shows "R s (fst (snd (withRetry fn options s))) \<and>
         (\<forall>v. fst (withRetry fn options s) = Inr v \<longrightarrow> Q v)"
  unfolding withRetry_def by (rule retry_loop_post[where R = R and Q = Q]) (fact assms)+

subsection \<open>Steps of the fixing pass\<close>

lemma cost_neutral_events [simp]:
  "cost_neutral (FixStarted f ids)" "cost_neutral (FixComplete f ok fixed failed)"
  "cost_neutral (VerificationResult f v r)" "cost_neutral (CycleStarted c m)"
  "cost_neutral (DetectionStarted n)" "cost_neutral (BudgetWarning a b)"
proof -
  have 1: "d_totalCost (foldl fix_started_one s l) = d_totalCost s" for s l
    by (rule foldl_field) (simp add: fix_started_one_def)
  have 2: "d_totalCost (foldl fix_fixed_one s l) = d_totalCost s" for s l
    by (rule foldl_field) (simp add: fix_fixed_one_def)
  have 3: "d_totalCost (foldl fix_failed_one s l) = d_totalCost s" for s l
    by (rule foldl_field) (simp add: fix_failed_one_def)
  show "cost_neutral (FixStarted f ids)"
    by (cases ids) (simp_all add: cost_neutral_def 1)
  show "cost_neutral (FixComplete f ok fixed failed)"
    by (cases fixed; cases failed) (simp_all add: cost_neutral_def 2 3 Let_def)
qed (simp_all add: cost_neutral_def)

lemma follows_emit: "cost_neutral ev \<Longrightarrow> follows env s (emit ev s)"
  by (simp add: follows_def emit_def)

lemma follows_addCost: "(nonneg_costs env \<Longrightarrow> 0 \<le> c) \<Longrightarrow> follows env s (addCost c s)"
  by (auto simp: follows_def addCost_def js_plus_ge)

lemma follows_frame:
  "rs s' = (rs s)\<lparr>totalFixed := tf, totalIssuesFound := ti\<rparr> \<Longrightarrow> clock s' = clock s \<Longrightarrow>
   emitted s' = emitted s \<Longrightarrow> follows env s s'"
  by (simp add: follows_def)

lemma follows_backupFile: "follows env s (snd (backupFile file s))"
  by (auto simp: backupFile_def Let_def follows_def split: option.splits)

lemma follows_restore: "follows env s (snd (restoreFromBackup file b s))"
  by (auto simp: restoreFromBackup_def follows_def split: option.splits)

lemma follows_cleanup: "follows env s (cleanupBackup b s)"
  by (simp add: cleanupBackup_def follows_def)

lemma follows_review: "follows env s (snd (executeClaudeReview env files s))"
  by (auto simp: executeClaudeReview_def Let_def follows_def signal_def no_sigint_def)

lemma follows_fix: "follows env s (snd (executeClaudeFix env cfg file issues s))"
  by (auto simp: executeClaudeFix_def Let_def follows_def signal_def no_sigint_def)

lemma review_cost:
  "fst (executeClaudeReview env files s) = Inr d \<Longrightarrow> nonneg_costs env \<Longrightarrow> 0 \<le> js_or (det_cost d) 0"
  by (auto simp: executeClaudeReview_def Let_def nonneg_costs_def split: sum.splits dest!: spec[of _ "detect_calls s"])

lemma fix_cost:
  "fst (executeClaudeFix env cfg file issues s) = Inr r \<Longrightarrow> nonneg_costs env \<Longrightarrow> 0 \<le> js_or (fr_cost r) 0"
  by (auto simp: executeClaudeFix_def Let_def nonneg_costs_def js_or_def split: sum.splits if_splits
      dest!: spec[of _ "fix_calls s"])

lemma follows_reviewWithRetry:
  "follows env s (snd (executeClaudeReviewWithRetry env files s)) \<and>
   (\<forall>d. fst (executeClaudeReviewWithRetry env files s) = Inr d \<longrightarrow> nonneg_costs env \<longrightarrow>
        0 \<le> js_or (det_cost d) 0)"
  using withRetry_post[where R = "follows env" and fn = "executeClaudeReview env files"
      and Q = "\<lambda>d. nonneg_costs env \<longrightarrow> 0 \<le> js_or (det_cost d) 0" and s = s
      and options = "\<lparr>maxAttempts = Some 3, baseDelay = Some 1000\<rparr>",
      OF follows_refl follows_trans follows_review]
  by (auto simp: executeClaudeReviewWithRetry_def review_cost split: prod.splits)

lemma follows_fixWithRetry:
  "follows env s (snd (executeClaudeFixWithRetry env cfg file issues s)) \<and>
   (\<forall>r. fst (executeClaudeFixWithRetry env cfg file issues s) = Inr r \<longrightarrow> nonneg_costs env \<longrightarrow>
        0 \<le> js_or (fr_cost r) 0)"
  using withRetry_post[where R = "follows env" and fn = "executeClaudeFix env cfg file issues"
      and Q = "\<lambda>r. nonneg_costs env \<longrightarrow> 0 \<le> js_or (fr_cost r) 0" and s = s
      and options = "\<lparr>maxAttempts = Some 3, baseDelay = Some 1000\<rparr>",
      OF follows_refl follows_trans follows_fix]
  by (auto simp: executeClaudeFixWithRetry_def fix_cost split: prod.splits)

lemma follows_verifyFix: "follows env s (snd (verifyFix env file s))"
  using follows_reviewWithRetry[of env s "[file]"]
  by (auto simp: verifyFix_def Let_def split: prod.splits sum.splits)

lemma then_emit: "cost_neutral ev \<Longrightarrow> follows env s s1 \<Longrightarrow> follows env s (emit ev s1)"
  by (erule follows_trans[OF _ follows_emit])

lemma then_addCost: "(nonneg_costs env \<Longrightarrow> 0 \<le> c) \<Longrightarrow> follows env s s1 \<Longrightarrow> follows env s (addCost c s1)"
  by (erule follows_trans[OF _ follows_addCost])

lemma then_totalFixed:
  "follows env s s1 \<Longrightarrow> follows env s (s1\<lparr>rs := (rs s1)\<lparr>totalFixed := x\<rparr>\<rparr>)"
  by (erule follows_trans) (simp add: follows_def)

lemma then_restore: "follows env s s1 \<Longrightarrow> follows env s (snd (restoreFromBackup file b s1))"
  by (erule follows_trans[OF _ follows_restore])

lemma then_cleanup: "follows env s s1 \<Longrightarrow> follows env s (cleanupBackup b s1)"
  by (erule follows_trans[OF _ follows_cleanup])

lemma then_backup: "follows env s s1 \<Longrightarrow> follows env s (snd (backupFile file s1))"
  by (erule follows_trans[OF _ follows_backupFile])

lemma then_verify: "follows env s s1 \<Longrightarrow> follows env s (snd (verifyFix env file s1))"
  by (erule follows_trans[OF _ follows_verifyFix])

lemmas then_rules = then_emit then_addCost then_totalFixed then_restore then_cleanup then_backup
  then_verify

lemma follows_fixTransaction:
  "follows env (snd acc) (snd (fixTransaction env cfg file fileIssues issueIds backupPath acc))"
proof -
  obtain r s1 where e: "executeClaudeFixWithRetry env cfg file fileIssues (snd acc) = (r, s1)"
    by (cases "executeClaudeFixWithRetry env cfg file fileIssues (snd acc)")
  have f1: "follows env (snd acc) s1"
    and c1: "\<And>v. r = Inr v \<Longrightarrow> nonneg_costs env \<Longrightarrow> 0 \<le> js_or (fr_cost v) 0"
    using follows_fixWithRetry[of env "snd acc" cfg "file" fileIssues] e by auto
  show ?thesis
  proof (cases r)
    case (Inl err)
    then show ?thesis using e f1
      by (auto simp: fixTransaction_def Let_def split: option.splits intro!: then_rules)
  next
    case (Inr v)
    obtain ver s3 where vf: "verifyFix env file (addCost (js_or (fr_cost v) 0) s1) = (ver, s3)"
      by (cases "verifyFix env file (addCost (js_or (fr_cost v) 0) s1)")
    have f2: "follows env (snd acc) (addCost (js_or (fr_cost v) 0) s1)"
      using f1 c1[OF Inr] by (intro then_addCost)
    have f3: "follows env (snd acc) s3"
      using then_verify[OF f2, of "file"] vf by simp
    show ?thesis using e Inr vf f2 f3
      by (auto simp: fixTransaction_def Let_def split: option.splits intro!: then_rules)
  qed
qed

lemma follows_fixFile:
  "follows env (snd acc) (snd (snd (fixFile env cfg issues file acc)))"
proof -
  let ?fi = "getAutoFixableForFile cfg issues file"
  let ?s1 = "emit (FixStarted file (Some (map issueId ?fi))) (snd acc)"
  have f1: "follows env (snd acc) ?s1" by (intro follows_emit) simp
  have f2: "follows env (snd acc) (snd (backupFile file ?s1))" by (intro then_backup f1)
  have t: "follows env (snd acc) (snd (fixTransaction env cfg file ?fi (map issueId ?fi) bp (fst acc, s2)))"
    if "follows env (snd acc) s2" for bp s2
    using follows_trans[OF that follows_fixTransaction[of env "(fst acc, s2)", simplified]] by simp
  show ?thesis
  proof (cases "?fi = []")
    case True
    then show ?thesis by (simp add: fixFile_def)
  next
    case ne: False
    show ?thesis
    proof (cases "backupFiles cfg")
      case False
      obtain n s3 where ft: "fixTransaction env cfg file ?fi (map issueId ?fi) None (fst acc, ?s1) = (n, s3)"
        by (cases "fixTransaction env cfg file ?fi (map issueId ?fi) None (fst acc, ?s1)")
      show ?thesis using ne False ft t[OF f1, of None]
        by (simp add: fixFile_def Let_def)
    next
      case True
      obtain bp s2 where bk: "backupFile file ?s1 = (bp, s2)" by (cases "backupFile file ?s1")
      have f2': "follows env (snd acc) s2" using f2 bk by simp
      obtain n s3 where ft: "fixTransaction env cfg file ?fi (map issueId ?fi) bp (fst acc, s2) = (n, s3)"
        by (cases "fixTransaction env cfg file ?fi (map issueId ?fi) bp (fst acc, s2)")
      show ?thesis using ne True bk ft f2' t[OF f2', of bp]
        by (simp add: fixFile_def Let_def)
    qed
  qed
qed

lemma follows_fixLoop:
  "follows env (snd acc) (snd (fixLoop env cfg issues fileSet acc))"
proof (induction fileSet arbitrary: acc)
  case Nil then show ?case by simp
next
  case (Cons f rest)
  obtain brk acc' where ff: "fixFile env cfg issues f acc = (brk, acc')"
    by (cases "fixFile env cfg issues f acc")
  have 1: "follows env (snd acc) (snd acc')"
    using follows_fixFile[of env acc cfg issues f] ff by simp
  show ?case
    using ff 1 follows_trans[OF 1 Cons.IH[of acc']] by simp
qed

lemma follows_fields:
  assumes "follows env s s'"
  shows "cycle (rs s') = cycle (rs s)" "clock s' = clock s"
    "nonneg_costs env \<Longrightarrow> is_double (totalCost (rs s)) \<Longrightarrow> totalCost (rs s) \<le> totalCost (rs s')"
    "no_sigint env \<Longrightarrow> stopped (rs s') = stopped (rs s)"
    "is_double (totalCost (rs s)) \<Longrightarrow> is_double (totalCost (rs s'))"
  using assms by (simp_all add: follows_def)

lemma emit_fields [simp]:
  "rs (emit ev s) = rs s" "clock (emit ev s) = clock s" "fs (emit ev s) = fs s"
  "detect_calls (emit ev s) = detect_calls s" "fix_calls (emit ev s) = fix_calls s"
  "emitted (emit ev s) = emitted s @ [(clock s, ev)]"
  by (simp_all add: emit_def)

lemma addCost_fields [simp]:
  "totalCost (rs (addCost c s)) = js_plus (totalCost (rs s)) c" "cycle (rs (addCost c s)) = cycle (rs s)"
  "stopped (rs (addCost c s)) = stopped (rs s)" "totalFixed (rs (addCost c s)) = totalFixed (rs s)"
  "clock (addCost c s) = clock s" "fs (addCost c s) = fs s" "emitted (addCost c s) = emitted s"
  "detect_calls (addCost c s) = detect_calls s" "fix_calls (addCost c s) = fix_calls s"
  by (simp_all add: addCost_def)

lemma cycleStart_fields [simp]:
  "cycle (rs (cycleStart cfg files s)) = Suc (cycle (rs s))"
  "totalCost (rs (cycleStart cfg files s)) = totalCost (rs s)"
  "stopped (rs (cycleStart cfg files s)) = stopped (rs s)"
  "clock (cycleStart cfg files s) = clock s" "fs (cycleStart cfg files s) = fs s"
  "emitted (cycleStart cfg files s) = emitted s @
     [(clock s, CycleStarted (Suc (cycle (rs s))) (maxCycles cfg)), (clock s, DetectionStarted (length files))]"
  by (simp_all add: cycleStart_def Let_def)

lemma detectionDone_fields [simp]:
  "cycle (rs (detectionDone cfg d s)) = cycle (rs s)"
  "totalCost (rs (detectionDone cfg d s)) = js_plus (totalCost (rs s)) (js_or (det_cost d) 0)"
  "stopped (rs (detectionDone cfg d s)) = stopped (rs s)"
  "clock (detectionDone cfg d s) = clock s" "fs (detectionDone cfg d s) = fs s"
  "emitted (detectionDone cfg d s) = emitted s @
     [(clock s, DetectionComplete (Some (map (event_issue cfg) (case det_issues d of None \<Rightarrow> [] | Some l \<Rightarrow> l)))
         (countAutoFixable cfg (case det_issues d of None \<Rightarrow> [] | Some l \<Rightarrow> l)) (Some (js_or (det_cost d) 0))),
      (clock s, CostUpdate (Some (js_plus (totalCost (rs s)) (js_or (det_cost d) 0))))]"
  by (simp_all add: detectionDone_def Let_def)

lemma runRalphCycle_advances:
  "advances env s (snd (runRalphCycle env cfg files s))"
proof -
  obtain r s4 where rv: "executeClaudeReviewWithRetry env files (cycleStart cfg files s) = (r, s4)"
    by (cases "executeClaudeReviewWithRetry env files (cycleStart cfg files s)")
  have f34: "follows env (cycleStart cfg files s) s4"
    and c4: "\<And>d. r = Inr d \<Longrightarrow> nonneg_costs env \<Longrightarrow> 0 \<le> js_or (det_cost d) 0"
    using follows_reviewWithRetry[of env "cycleStart cfg files s" files] rv by auto
  have a4: "advances env s s4"
    using follows_fields[OF f34] by (simp add: advances_def)
  show ?thesis
  proof (cases r)
    case (Inl e)
    then show ?thesis using rv a4 by (simp add: runRalphCycle_def)
  next
    case (Inr d)
    define iss where "iss = (case det_issues d of None \<Rightarrow> [] | Some l \<Rightarrow> l)"
    have a8: "advances env s (detectionDone cfg d s4)"
      using a4 c4[OF Inr] js_plus_ge[of "totalCost (rs s4)" "js_or (det_cost d) 0"]
      by (auto simp: advances_def)
    obtain n s9 where fl: "fixLoop env cfg iss (new_Set (map i_file iss)) (0, detectionDone cfg d s4) = (n, s9)"
      by (cases "fixLoop env cfg iss (new_Set (map i_file iss)) (0, detectionDone cfg d s4)")
    have f89: "follows env (detectionDone cfg d s4) s9"
      using follows_fixLoop[of env "(0, detectionDone cfg d s4)" cfg iss "new_Set (map i_file iss)"] fl by simp
    have a9: "advances env s s9"
      using a8 follows_fields[OF f89] by (auto simp: advances_def)
    have a10: "advances env s (emit (CycleComplete (cycle (rs s9)) n (Some (totalCost (rs s9)))) s9)"
      using a9 by (simp add: advances_def)
    show ?thesis using rv Inr a8 a10 fl
      by (simp add: runRalphCycle_def Let_def iss_def[symmetric])
  qed
qed

lemma budgetWarn_fields [simp]:
  "rs (budgetWarn cfg s) = rs s" "clock (budgetWarn cfg s) = clock s" "fs (budgetWarn cfg s) = fs s"
  "detect_calls (budgetWarn cfg s) = detect_calls s" "fix_calls (budgetWarn cfg s) = fix_calls s"
  by (simp_all add: budgetWarn_def)

lemma mainLoop_decreases:
  assumes "cycle (rs s) < maxCycles cfg"
    and "(xa, y) = runRalphCycle env cfg files (budgetWarn cfg s)"
  shows "maxCycles cfg - cycle (rs y) < maxCycles cfg - cycle (rs s)"
proof -
  have "cycle (rs y) = Suc (cycle (rs (budgetWarn cfg s)))"
    using runRalphCycle_advances[of env "budgetWarn cfg s" cfg files] assms(2)[symmetric]
    by (simp add: advances_def)
  then show ?thesis using assms(1) by simp
qed

termination mainLoop
  apply (relation "measure (\<lambda>(env, cfg, files, s). maxCycles cfg - cycle (rs s))")
   apply simp
  apply (simp add: mainLoop_decreases)
  done

declare mainLoop.simps [simp del]

subsection \<open>The budget\<close>

lemma budget_ignored_infer [simp]:
  "inferAutoFixable (cfg\<lparr>budgetHard := b\<rparr>) = inferAutoFixable cfg"
  by (simp add: fun_eq_iff inferAutoFixable_def split: option.splits)

lemma budget_ignored_helpers [simp]:
  "countAutoFixable (cfg\<lparr>budgetHard := b\<rparr>) = countAutoFixable cfg"
  "getAutoFixableForFile (cfg\<lparr>budgetHard := b\<rparr>) = getAutoFixableForFile cfg"
  "event_issue (cfg\<lparr>budgetHard := b\<rparr>) = event_issue cfg"
  "executeClaudeFix env (cfg\<lparr>budgetHard := b\<rparr>) = executeClaudeFix env cfg"
  "cycleStart (cfg\<lparr>budgetHard := b\<rparr>) = cycleStart cfg"
  by (simp_all add: fun_eq_iff countAutoFixable_def getAutoFixableForFile_def
      event_issue_def executeClaudeFix_def cycleStart_def)

lemma budget_ignored_detectionDone [simp]:
  "detectionDone (cfg\<lparr>budgetHard := b\<rparr>) = detectionDone cfg"
  by (simp add: fun_eq_iff detectionDone_def)

lemma budget_ignored_fixWithRetry [simp]:
  "executeClaudeFixWithRetry env (cfg\<lparr>budgetHard := b\<rparr>) = executeClaudeFixWithRetry env cfg"
  by (simp add: fun_eq_iff executeClaudeFixWithRetry_def)

lemma budget_ignored_fixTransaction [simp]:
  "fixTransaction env (cfg\<lparr>budgetHard := b\<rparr>) = fixTransaction env cfg"
  by (simp add: fun_eq_iff fixTransaction_def cong: prod.case_cong sum.case_cong if_cong)

lemma budget_ignored_fixFile [simp]:
  "fixFile env (cfg\<lparr>budgetHard := b\<rparr>) = fixFile env cfg"
  by (simp add: fun_eq_iff fixFile_def Let_def cong: prod.case_cong if_cong)

lemma budget_ignored_fixLoop [simp]:
  "fixLoop env (cfg\<lparr>budgetHard := b\<rparr>) issues fileSet acc = fixLoop env cfg issues fileSet acc"
  by (induction fileSet arbitrary: acc) (simp_all cong: prod.case_cong if_cong)

lemma budget_ignored_cycle:
  "runRalphCycle env (cfg\<lparr>budgetHard := b\<rparr>) files s = runRalphCycle env cfg files s"
  by (simp add: runRalphCycle_def Let_def cong: prod.case_cong sum.case_cong if_cong)

lemma stoppedExit_fields [simp]:
  "rr_status (fst (stoppedExit s)) = ''stopped''"
  "rr_reason (fst (stoppedExit s)) = Some (if stopped (rs s) then ''User interrupted'' else ''Max cycles reached'')"
  "rs (snd (stoppedExit s)) = rs s" "fs (snd (stoppedExit s)) = fs s"
  "detect_calls (snd (stoppedExit s)) = detect_calls s" "fix_calls (snd (stoppedExit s)) = fix_calls s"
  "emitted (snd (stoppedExit s)) = emitted s @
     [(clock s, RalphComplete ''stopped'' (totalFixed (rs s)) (Some (totalCost (rs s)))
         (if stopped (rs s) then ''User interrupted'' else ''Max cycles reached''))]"
  by (simp_all add: stoppedExit_def Let_def)

lemma mainLoop_budget:
  "js_ge (totalCost (rs s)) (budgetHard cfg) \<Longrightarrow> mainLoop env cfg files s = stoppedExit s"
  by (subst mainLoop.simps) simp

text \<open>
  Claim C3. The cycle does not read the hard limit, so the budget never ends a cycle half way.
  When \<open>totalCost\<close> has reached \<open>budgetHard\<close> at the top of the main loop, the run goes to
  the code after the loop, which reports the status \<^verbatim>\<open>stopped\<close>: no cycle is counted, no
  engine call is made and no file is touched from there on. So a cycle that did not complete
  the run and whose spending brought \<open>totalCost\<close> to the limit is the last one.
\<close>

theorem budget_stops_at_loop_top:
  "runRalphCycle env (cfg\<lparr>budgetHard := b\<rparr>) files s = runRalphCycle env cfg files s
   \<and> (js_ge (totalCost (rs s)) (budgetHard cfg) \<longrightarrow>
        mainLoop env cfg files s = stoppedExit s \<and>
        rr_status (fst (mainLoop env cfg files s)) = ''stopped'' \<and>
        cycle (rs (snd (mainLoop env cfg files s))) = cycle (rs s) \<and>
        detect_calls (snd (mainLoop env cfg files s)) = detect_calls s \<and>
        fix_calls (snd (mainLoop env cfg files s)) = fix_calls s \<and>
        fs (snd (mainLoop env cfg files s)) = fs s)
   \<and> (cycle (rs s) < maxCycles cfg \<and> \<not> stopped (rs s) \<and>
        \<not> js_ge (totalCost (rs s)) (budgetHard cfg) \<and>
        runRalphCycle env cfg files (budgetWarn cfg s) = (result, s2) \<and> \<not> cr_complete result \<and>
        js_ge (totalCost (rs s2)) (budgetHard cfg) \<longrightarrow>
        mainLoop env cfg files s = stoppedExit s2)"
proof (intro conjI impI)
  show "runRalphCycle env (cfg\<lparr>budgetHard := b\<rparr>) files s = runRalphCycle env cfg files s"
    by (rule budget_ignored_cycle)
next
  assume a: "cycle (rs s) < maxCycles cfg \<and> \<not> stopped (rs s) \<and>
        \<not> js_ge (totalCost (rs s)) (budgetHard cfg) \<and>
        runRalphCycle env cfg files (budgetWarn cfg s) = (result, s2) \<and> \<not> cr_complete result \<and>
        js_ge (totalCost (rs s2)) (budgetHard cfg)"
  then have "mainLoop env cfg files s = mainLoop env cfg files s2"
    by (subst mainLoop.simps) simp
  then show "mainLoop env cfg files s = stoppedExit s2"
    using a by (simp add: mainLoop_budget)
qed (simp_all add: mainLoop_budget)

lemma review_first_try:
  "d_outcome (detect_engine env (detect_calls s)) = Inr d \<Longrightarrow>
   executeClaudeReviewWithRetry env files s =
     (Inr d, signal (d_sigint (detect_engine env (detect_calls s))) (s\<lparr>detect_calls := Suc (detect_calls s)\<rparr>))"
  by (simp add: executeClaudeReviewWithRetry_def withRetry_def retry_loop.simps
      executeClaudeReview_def Let_def)

lemma untouched_calls [simp]:
  "detect_calls (cycleStart cfg files s) = detect_calls s"
  by (simp add: cycleStart_def Let_def)

lemma runRalphCycle_complete:
  assumes "fst (executeClaudeReviewWithRetry env files (cycleStart cfg files s)) = Inr d"
    and "iss = (case det_issues d of None \<Rightarrow> [] | Some l \<Rightarrow> l)"
    and "countAutoFixable cfg iss = 0"
  shows "fst (runRalphCycle env cfg files s) =
     \<lparr>cr_complete = True,
      cr_reason = Some (if iss = [] then ''No issues found'' else ''No auto-fixable issues remaining''),
      cr_remainingIssues = (if iss = [] then None else Some iss),
      cr_error = None, cr_fixedThisCycle = None\<rparr>"
proof -
  obtain s4 where "executeClaudeReviewWithRetry env files (cycleStart cfg files s) = (Inr d, s4)"
    using assms(1) by (cases "executeClaudeReviewWithRetry env files (cycleStart cfg files s)") simp
  then show ?thesis using assms(2,3) by (simp add: runRalphCycle_def Let_def)
qed

lemma completeExit_report [simp]:
  "fst (completeExit result s) = \<lparr>rr_status = ''complete'', rr_reason = cr_reason result,
     rr_remainingIssues = cr_remainingIssues result\<rparr>"
  by (simp add: completeExit_def)

text \<open>
  Claim C7. When a detection pass resolves and none of its issues counts as auto-fixable
  (the flag when present, else the safe patterns), the cycle reports completion: with the
  reason \<^verbatim>\<open>No issues found\<close> when there is no issue, else with
  \<^verbatim>\<open>No auto-fixable issues remaining\<close> and the whole issue list. The main loop then ends
  the run with the status \<^verbatim>\<open>complete\<close>, the same reason and the same list. An issue whose
  flag is false does not count, so a detection that returns one such issue ends the run
  complete with one remaining issue.
\<close>

theorem no_autofixable_ends_run_complete:
  "(fst (executeClaudeReviewWithRetry env files (cycleStart cfg files s)) = Inr d \<and>
    iss = (case det_issues d of None \<Rightarrow> [] | Some l \<Rightarrow> l) \<and> countAutoFixable cfg iss = 0 \<longrightarrow>
      fst (runRalphCycle env cfg files s) =
        \<lparr>cr_complete = True,
         cr_reason = Some (if iss = [] then ''No issues found'' else ''No auto-fixable issues remaining''),
         cr_remainingIssues = (if iss = [] then None else Some iss),
         cr_error = None, cr_fixedThisCycle = None\<rparr>)
   \<and> (cycle (rs s) < maxCycles cfg \<and> \<not> stopped (rs s) \<and>
      \<not> js_ge (totalCost (rs s)) (budgetHard cfg) \<and>
      fst (executeClaudeReviewWithRetry env files (cycleStart cfg files (budgetWarn cfg s))) = Inr d \<and>
      iss = (case det_issues d of None \<Rightarrow> [] | Some l \<Rightarrow> l) \<and> countAutoFixable cfg iss = 0 \<longrightarrow>
      fst (mainLoop env cfg files s) =
        \<lparr>rr_status = ''complete'',
         rr_reason = Some (if iss = [] then ''No issues found'' else ''No auto-fixable issues remaining''),
         rr_remainingIssues = (if iss = [] then None else Some iss)\<rparr>)
   \<and> (i_autoFixable i = Some False \<longrightarrow> countAutoFixable cfg [i] = 0)"
proof (intro conjI impI)
  assume "fst (executeClaudeReviewWithRetry env files (cycleStart cfg files s)) = Inr d \<and>
    iss = (case det_issues d of None \<Rightarrow> [] | Some l \<Rightarrow> l) \<and> countAutoFixable cfg iss = 0"
  then show "fst (runRalphCycle env cfg files s) =
        \<lparr>cr_complete = True,
         cr_reason = Some (if iss = [] then ''No issues found'' else ''No auto-fixable issues remaining''),
         cr_remainingIssues = (if iss = [] then None else Some iss),
         cr_error = None, cr_fixedThisCycle = None\<rparr>"
    using runRalphCycle_complete by blast
next
  assume a: "cycle (rs s) < maxCycles cfg \<and> \<not> stopped (rs s) \<and>
      \<not> js_ge (totalCost (rs s)) (budgetHard cfg) \<and>
      fst (executeClaudeReviewWithRetry env files (cycleStart cfg files (budgetWarn cfg s))) = Inr d \<and>
      iss = (case det_issues d of None \<Rightarrow> [] | Some l \<Rightarrow> l) \<and> countAutoFixable cfg iss = 0"
  define s1 where "s1 = budgetWarn cfg s"
  have "fst (executeClaudeReviewWithRetry env files (cycleStart cfg files s1)) = Inr d"
    using a by (simp add: s1_def)
  then have c: "fst (runRalphCycle env cfg files s1) =
        \<lparr>cr_complete = True,
         cr_reason = Some (if iss = [] then ''No issues found'' else ''No auto-fixable issues remaining''),
         cr_remainingIssues = (if iss = [] then None else Some iss),
         cr_error = None, cr_fixedThisCycle = None\<rparr>"
    using a runRalphCycle_complete by blast
  obtain result s2 where r: "runRalphCycle env cfg files s1 = (result, s2)"
    by (cases "runRalphCycle env cfg files s1")
  have "mainLoop env cfg files s = completeExit result s2"
    using a r c by (subst mainLoop.simps) (simp add: s1_def[symmetric])
  then show "fst (mainLoop env cfg files s) =
        \<lparr>rr_status = ''complete'',
         rr_reason = Some (if iss = [] then ''No issues found'' else ''No auto-fixable issues remaining''),
         rr_remainingIssues = (if iss = [] then None else Some iss)\<rparr>"
    using r c by simp
next
  assume "i_autoFixable i = Some False"
  then show "countAutoFixable cfg [i] = 0"
    by (simp add: countAutoFixable_def inferAutoFixable_def)
qed

theorem no_autofixable_ends_run_complete_witness:
  "fst (runRalphMode manual_reviewer defaultConfig [''a.ts''] (initialSys sample_disk 1700)) =
     Some \<lparr>rr_status = ''complete'', rr_reason = Some ''No auto-fixable issues remaining'',
           rr_remainingIssues = Some [api_key_issue]\<rparr>
   \<and> length [api_key_issue] = 1 \<and> countAutoFixable defaultConfig [api_key_issue] = 0"
proof -
  let ?s = "emit (RalphStarted (Some (maxCycles defaultConfig)) (Some (budgetHard defaultConfig)))
      ((initialSys sample_disk 1700)\<lparr>rs := (rs (initialSys sample_disk 1700))\<lparr>startTime := Some 1700\<rparr>\<rparr>)"
  note t = no_autofixable_ends_run_complete[where env = manual_reviewer and cfg = defaultConfig
      and files = "[''a.ts'']" and s = ?s and i = api_key_issue and iss = "[api_key_issue]"
      and d = "\<lparr>det_issues = Some [api_key_issue], det_cost = Some (1/8)\<rparr>"]
  have fl: "i_autoFixable api_key_issue = Some False" by (simp add: api_key_issue_def)
  have z: "countAutoFixable defaultConfig [api_key_issue] = 0"
    using t fl by blast
  have "d_outcome (detect_engine manual_reviewer n) =
      Inr \<lparr>det_issues = Some [api_key_issue], det_cost = Some (1/8)\<rparr>" for n
    by (simp add: manual_reviewer_def)
  then have "fst (executeClaudeReviewWithRetry manual_reviewer [''a.ts'']
      (cycleStart defaultConfig [''a.ts''] (budgetWarn defaultConfig ?s))) =
      Inr \<lparr>det_issues = Some [api_key_issue], det_cost = Some (1/8)\<rparr>"
    by (simp add: review_first_try)
  then have "fst (mainLoop manual_reviewer defaultConfig [''a.ts''] ?s) =
     \<lparr>rr_status = ''complete'', rr_reason = Some ''No auto-fixable issues remaining'',
      rr_remainingIssues = Some [api_key_issue]\<rparr>"
    using t z by (simp add: initialSys_def defaultConfig_def)
  then show ?thesis using z
    by (auto simp: runRalphMode_def Let_def initialSys_def split: prod.splits)
qed

text \<open>
  Claim C4 fails on the code: \<^verbatim>\<open>verifyFix\<close> counts only the issues whose \<^verbatim>\<open>autoFixable\<close>
  field is truthy. A re-detection that reports a \<^verbatim>\<open>console-log\<close> issue without the field
  leaves one auto-fixable issue by the rule used everywhere else (flag when present, else
  safe pattern), and still the fix is verified.
\<close>

theorem verifyFix_misses_safe_patterns:
  "verified (fst (verifyFix unflagged_reviewer ''a.ts'' (initialSys sample_disk 1700)))
   \<and> autoFixableRemaining (fst (verifyFix unflagged_reviewer ''a.ts'' (initialSys sample_disk 1700))) = Some 0
   \<and> countAutoFixable defaultConfig [unflagged_issue] = 1"
  by (simp add: verifyFix_def executeClaudeReviewWithRetry_def withRetry_def retry_loop.simps
      executeClaudeReview_def unflagged_reviewer_def Let_def unflagged_issue_def signal_def
      initialSys_def countAutoFixable_def inferAutoFixable_def defaultConfig_def)

lemma backup_fields [simp]:
  "rs (snd (backupFile f s)) = rs s" "rs (snd (restoreFromBackup f b s)) = rs s"
  "rs (cleanupBackup b s) = rs s"
  by (simp_all add: backupFile_def restoreFromBackup_def cleanupBackup_def Let_def split: option.splits)

lemma review_keeps_cost: "totalCost (rs (snd (executeClaudeReview env files s))) = totalCost (rs s)"
  by (simp add: executeClaudeReview_def Let_def signal_def)

lemma fix_keeps_cost: "totalCost (rs (snd (executeClaudeFix env cfg f issues s))) = totalCost (rs s)"
  by (simp add: executeClaudeFix_def Let_def signal_def)

lemma fix_capped:
  "fst (executeClaudeFix env cfg f issues s) = Inr r \<Longrightarrow> capped_costs env hi \<Longrightarrow> 0 \<le> hi \<Longrightarrow>
   js_or (fr_cost r) 0 \<le> hi"
  by (auto simp: executeClaudeFix_def Let_def capped_costs_def js_or_def split: sum.splits if_splits
      dest!: spec[of _ "fix_calls s"])

lemma reviewWithRetry_keeps_cost [simp]:
  "totalCost (rs (snd (executeClaudeReviewWithRetry env files s))) = totalCost (rs s)"
  using withRetry_post[where R = "\<lambda>a b. totalCost (rs b) = totalCost (rs a)"
      and fn = "executeClaudeReview env files" and Q = "\<lambda>d. True" and s = s
      and options = "\<lparr>maxAttempts = Some 3, baseDelay = Some 1000\<rparr>"]
  by (auto simp: executeClaudeReviewWithRetry_def review_keeps_cost split: prod.splits)

lemma fixWithRetry_keeps_cost:
  "totalCost (rs (snd (executeClaudeFixWithRetry env cfg f issues s))) = totalCost (rs s) \<and>
   (\<forall>r. fst (executeClaudeFixWithRetry env cfg f issues s) = Inr r \<longrightarrow> capped_costs env hi \<longrightarrow> 0 \<le> hi \<longrightarrow>
        js_or (fr_cost r) 0 \<le> hi)"
  using withRetry_post[where R = "\<lambda>a b. totalCost (rs b) = totalCost (rs a)"
      and fn = "executeClaudeFix env cfg f issues"
      and Q = "\<lambda>r. capped_costs env hi \<longrightarrow> 0 \<le> hi \<longrightarrow> js_or (fr_cost r) 0 \<le> hi" and s = s
      and options = "\<lparr>maxAttempts = Some 3, baseDelay = Some 1000\<rparr>"]
  by (auto simp: executeClaudeFixWithRetry_def fix_keeps_cost fix_capped split: prod.splits)

lemma verifyFix_keeps_cost [simp]:
  "totalCost (rs (snd (verifyFix env f s))) = totalCost (rs s)"
proof -
  obtain r s' where e: "executeClaudeReviewWithRetry env [f] s = (r, s')"
    by (cases "executeClaudeReviewWithRetry env [f] s")
  have "totalCost (rs s') = totalCost (rs s)"
    using reviewWithRetry_keeps_cost[of env "[f]" s] e by simp
  then show ?thesis using e by (cases r) (simp_all add: verifyFix_def Let_def)
qed

lemma fixTransaction_bound:
  assumes "capped_costs env hi" "0 \<le> hi" "is_double (totalCost (rs (snd acc)))"
  shows "totalCost (rs (snd (fixTransaction env cfg f fileIssues issueIds backupPath acc)))
           \<le> js_plus (js_plus (totalCost (rs (snd acc))) hi) (round64 (1 / 50)) \<and>
         is_double (totalCost (rs (snd (fixTransaction env cfg f fileIssues issueIds backupPath acc))))"
proof -
  let ?T = "totalCost (rs (snd acc))"
  obtain r s1 where e: "executeClaudeFixWithRetry env cfg f fileIssues (snd acc) = (r, s1)"
    by (cases "executeClaudeFixWithRetry env cfg f fileIssues (snd acc)")
  have t1: "totalCost (rs s1) = ?T"
    and c1: "\<And>v. r = Inr v \<Longrightarrow> js_or (fr_cost v) 0 \<le> hi"
    using fixWithRetry_keeps_cost[of env cfg f fileIssues "snd acc" hi] e assms by auto
  have u1: "?T \<le> js_plus ?T hi" using assms(3,2) by (rule js_plus_ge)
  have u2: "js_plus ?T hi \<le> js_plus (js_plus ?T hi) (round64 (1 / 50))"
    by (rule js_plus_ge) simp_all
  have u: "?T \<le> js_plus (js_plus ?T hi) (round64 (1 / 50))" using u1 u2 by linarith
  show ?thesis
  proof (cases r)
    case (Inl err)
    then show ?thesis using e t1 u assms(3)
      by (auto simp: fixTransaction_def Let_def split: option.splits)
  next
    case (Inr v)
    let ?c = "js_or (fr_cost v) 0"
    obtain ver s3 where vf: "verifyFix env f (addCost ?c s1) = (ver, s3)"
      by (cases "verifyFix env f (addCost ?c s1)")
    have t3: "totalCost (rs s3) = js_plus ?T ?c"
      using verifyFix_keeps_cost[of env f "addCost ?c s1"] vf t1 by simp
    have m1: "js_plus ?T ?c \<le> js_plus ?T hi"
      using c1[OF Inr] by (intro js_plus_mono) simp_all
    have m2: "js_plus (js_plus ?T ?c) (round64 (1 / 50)) \<le> js_plus (js_plus ?T hi) (round64 (1 / 50))"
      by (rule js_plus_mono[OF m1 order_refl])
    have m3: "js_plus ?T ?c \<le> js_plus (js_plus ?T hi) (round64 (1 / 50))"
      using m1 u2 by linarith
    show ?thesis using e Inr vf t1 t3 m2 m3
      by (auto simp: fixTransaction_def Let_def split: option.splits)
  qed
qed

lemma fixFile_bound:
  assumes "capped_costs env hi" "0 \<le> hi" "is_double (totalCost (rs (snd acc)))"
  shows "totalCost (rs (snd (snd (fixFile env cfg issues f acc))))
           \<le> js_plus (js_plus (totalCost (rs (snd acc))) hi) (round64 (1 / 50)) \<and>
         is_double (totalCost (rs (snd (snd (fixFile env cfg issues f acc)))))"
proof -
  let ?T = "totalCost (rs (snd acc))"
  let ?fi = "getAutoFixableForFile cfg issues f"
  let ?s1 = "emit (FixStarted f (Some (map issueId ?fi))) (snd acc)"
  have u1: "?T \<le> js_plus ?T hi" using assms(3,2) by (rule js_plus_ge)
  have u2: "js_plus ?T hi \<le> js_plus (js_plus ?T hi) (round64 (1 / 50))"
    by (rule js_plus_ge) simp_all
  have u: "?T \<le> js_plus (js_plus ?T hi) (round64 (1 / 50))" using u1 u2 by linarith
  have t: "totalCost (rs (snd (fixTransaction env cfg f ?fi (map issueId ?fi) bp (fst acc, s2))))
             \<le> js_plus (js_plus ?T hi) (round64 (1 / 50)) \<and>
           is_double (totalCost (rs (snd (fixTransaction env cfg f ?fi (map issueId ?fi) bp (fst acc, s2)))))"
    if "totalCost (rs s2) = ?T" for bp s2
    using fixTransaction_bound[OF assms(1,2), of "(fst acc, s2)" cfg f ?fi "map issueId ?fi" bp] that assms(3)
    by simp
  show ?thesis
  proof (cases "?fi = []")
    case True
    then show ?thesis using u assms(3) by (simp add: fixFile_def)
  next
    case ne: False
    show ?thesis
    proof (cases "backupFiles cfg")
      case False
      obtain n s3 where ft: "fixTransaction env cfg f ?fi (map issueId ?fi) None (fst acc, ?s1) = (n, s3)"
        by (cases "fixTransaction env cfg f ?fi (map issueId ?fi) None (fst acc, ?s1)")
      show ?thesis using ne False ft t[of ?s1 None]
        by (simp add: fixFile_def Let_def)
    next
      case True
      obtain bp s2 where bk: "backupFile f ?s1 = (bp, s2)" by (cases "backupFile f ?s1")
      have c2: "totalCost (rs s2) = ?T"
        using backup_fields(1)[of f ?s1] bk by simp
      obtain n s3 where ft: "fixTransaction env cfg f ?fi (map issueId ?fi) bp (fst acc, s2) = (n, s3)"
        by (cases "fixTransaction env cfg f ?fi (map issueId ?fi) bp (fst acc, s2)")
      show ?thesis using ne True bk ft c2 t[OF c2, of bp] u assms(3)
        by (simp add: fixFile_def Let_def)
    qed
  qed
qed


lemma cycle_cap_double [simp]: "is_double (cycle_cap hi t)"
  by (simp add: cycle_cap_def)


lemma runRalphCycle_one_issue:
  assumes one: "always_one_issue env cfg f" and cap: "capped_costs env hi" and hi: "0 \<le> hi"
  shows "\<not> cr_complete (fst (runRalphCycle env cfg files s)) \<and>
         totalCost (rs (snd (runRalphCycle env cfg files s))) \<le> cycle_cap hi (totalCost (rs s)) \<and>
         is_double (totalCost (rs (snd (runRalphCycle env cfg files s))))"
proof -
  let ?n = "detect_calls (cycleStart cfg files s)"
  obtain d i where d: "d_outcome (detect_engine env ?n) = Inr d" and di: "det_issues d = Some [i]"
    and fi: "i_file i = f" and af: "inferAutoFixable cfg i"
    using one[unfolded always_one_issue_def, rule_format, of ?n]
    by (auto split: sum.splits option.splits list.splits)
  let ?s4 = "signal (d_sigint (detect_engine env ?n)) ((cycleStart cfg files s)\<lparr>detect_calls := Suc ?n\<rparr>)"
  have rv: "executeClaudeReviewWithRetry env files (cycleStart cfg files s) = (Inr d, ?s4)"
    using review_first_try[OF d] by simp
  have cd: "js_or (det_cost d) 0 \<le> hi"
    using cap d by (auto simp: capped_costs_def split: sum.splits dest!: spec[of _ ?n])
  have cnt: "countAutoFixable cfg [i] = 1" using af by (simp add: countAutoFixable_def)
  have fset: "new_Set (map i_file [i]) = [f]" using fi by (simp add: new_Set_def set_add_def)
  let ?s8 = "detectionDone cfg d ?s4"
  have t8: "totalCost (rs ?s8) = js_plus (totalCost (rs s)) (js_or (det_cost d) 0)"
    by (simp add: signal_def)
  have d8: "is_double (totalCost (rs (snd (0::nat, ?s8))))" by (simp only: t8 snd_conv is_double_js_plus)
  obtain brk n s9 where ff: "fixFile env cfg [i] f (0, ?s8) = (brk, n, s9)"
    by (cases "fixFile env cfg [i] f (0, ?s8)") auto
  have t9: "totalCost (rs s9) \<le> js_plus (js_plus (totalCost (rs ?s8)) hi) (round64 (1 / 50))"
    and d9: "is_double (totalCost (rs s9))"
    using fixFile_bound[OF cap hi d8, of cfg "[i]" f] ff by simp_all
  have m: "js_plus (js_plus (totalCost (rs ?s8)) hi) (round64 (1 / 50)) \<le> cycle_cap hi (totalCost (rs s))"
    unfolding t8 cycle_cap_def using cd by (intro js_plus_mono) simp_all
  have fl: "fixLoop env cfg [i] [f] (0, ?s8) = (n, s9)" using ff by simp
  have res: "runRalphCycle env cfg files s =
      (\<lparr>cr_complete = False, cr_reason = None, cr_remainingIssues = None, cr_error = None,
        cr_fixedThisCycle = Some n\<rparr>,
       emit (CycleComplete (cycle (rs s9)) n (Some (totalCost (rs s9)))) s9)"
    using rv di cnt fset fl by (simp add: runRalphCycle_def Let_def)
  have "totalCost (rs s9) \<le> cycle_cap hi (totalCost (rs s))" using t9 m by linarith
  then show ?thesis using res d9 by simp
qed

lemma runRalphCycle_spends:
  assumes d: "d_outcome (detect_engine env (detect_calls s)) = Inr d" and nn: "nonneg_costs env"
  shows "js_plus (totalCost (rs s)) (js_or (det_cost d) 0)
           \<le> totalCost (rs (snd (runRalphCycle env cfg files s)))"
proof -
  let ?n = "detect_calls (cycleStart cfg files s)"
  let ?s4 = "signal (d_sigint (detect_engine env ?n)) ((cycleStart cfg files s)\<lparr>detect_calls := Suc ?n\<rparr>)"
  have rv: "executeClaudeReviewWithRetry env files (cycleStart cfg files s) = (Inr d, ?s4)"
    using review_first_try[of env "cycleStart cfg files s" d files] d by simp
  define iss where "iss = (case det_issues d of None \<Rightarrow> [] | Some l \<Rightarrow> l)"
  let ?s8 = "detectionDone cfg d ?s4"
  have t8: "totalCost (rs ?s8) = js_plus (totalCost (rs s)) (js_or (det_cost d) 0)"
    by (simp add: signal_def)
  obtain n s9 where fl: "fixLoop env cfg iss (new_Set (map i_file iss)) (0, ?s8) = (n, s9)"
    by (cases "fixLoop env cfg iss (new_Set (map i_file iss)) (0, ?s8)")
  have "follows env ?s8 s9"
    using follows_fixLoop[of env "(0, ?s8)" cfg iss "new_Set (map i_file iss)"] fl by simp
  then have "totalCost (rs ?s8) \<le> totalCost (rs s9)"
    using nn follows_fields(3)[of env ?s8 s9] by (simp only: t8 is_double_js_plus)
  then have t9: "js_plus (totalCost (rs s)) (js_or (det_cost d) 0) \<le> totalCost (rs s9)"
    by (simp only: t8)
  have t4: "totalCost (rs ?s4) = totalCost (rs s)" by (simp add: signal_def)
  show ?thesis using rv fl t9 t4
    by (simp add: runRalphCycle_def Let_def iss_def[symmetric])
qed



lemma stubborn_facts:
  "always_one_issue (stubborn_reviewer c) three_cycles ''a.ts''" "no_sigint (stubborn_reviewer c)"
  "0 \<le> c \<Longrightarrow> capped_costs (stubborn_reviewer c) c" "0 \<le> c \<Longrightarrow> nonneg_costs (stubborn_reviewer c)"
  by (simp_all add: always_one_issue_def no_sigint_def capped_costs_def nonneg_costs_def
      stubborn_reviewer_def one_issue_def inferAutoFixable_def js_or_def)





theorem budget_stops_at_loop_top_witness:
  "mainLoop (stubborn_reviewer 25) three_cycles [''a.ts''] spent_state = stoppedExit spent_state
   \<and> cycle (rs (snd (mainLoop (stubborn_reviewer 25) three_cycles [''a.ts''] spent_state))) = 1
   \<and> detect_calls (snd (mainLoop (stubborn_reviewer 25) three_cycles [''a.ts''] spent_state)) = 0
   \<and> rr_status (fst (mainLoop (stubborn_reviewer 25) three_cycles [''a.ts''] loop_entry)) = ''stopped''
   \<and> cycle (rs (snd (mainLoop (stubborn_reviewer 25) three_cycles [''a.ts''] loop_entry))) = 1"
proof -
  let ?env = "stubborn_reviewer 25" and ?files = "[''a.ts'']"
  let ?c = "runRalphCycle ?env three_cycles ?files (budgetWarn three_cycles loop_entry)"
  have e: "cycle (rs loop_entry) = 0" "\<not> stopped (rs loop_entry)" "totalCost (rs loop_entry) = 0"
    "detect_calls loop_entry = 0"
    by (simp_all add: loop_entry_def initialSys_def)
  have inc: "\<not> cr_complete (fst ?c)"
    using runRalphCycle_one_issue[where env = ?env and hi = 25 and cfg = three_cycles
        and f = "''a.ts''" and files = ?files and s = "budgetWarn three_cycles loop_entry"]
      stubborn_facts(1)[of 25] stubborn_facts(3)[of 25]
    by simp
  have d: "d_outcome (detect_engine ?env (detect_calls (budgetWarn three_cycles loop_entry))) =
      Inr \<lparr>det_issues = Some [one_issue], det_cost = Some 25\<rparr>"
    by (simp add: stubborn_reviewer_def)
  have "budgetHard three_cycles \<le> totalCost (rs (snd ?c))"
    using runRalphCycle_spends[OF d, of three_cycles ?files] stubborn_facts(4)[of 25] e
    by (simp add: three_cycles_def defaultConfig_def js_or_def)
  then have sp: "js_ge (totalCost (rs (snd ?c))) (budgetHard three_cycles)" by (rule js_ge_raw)
  have adv: "cycle (rs (snd ?c)) = 1"
    using runRalphCycle_advances[of ?env "budgetWarn three_cycles loop_entry" three_cycles ?files] e
    by (simp add: advances_def)
  note t = budget_stops_at_loop_top[where env = ?env and cfg = three_cycles and files = ?files]
  have 1: "mainLoop ?env three_cycles ?files spent_state = stoppedExit spent_state"
    using t[where s = spent_state]
    by (simp add: spent_state_def three_cycles_def defaultConfig_def)
  have 2: "mainLoop ?env three_cycles ?files loop_entry = stoppedExit (snd ?c)"
    using t[where s = loop_entry and result = "fst ?c" and ?s2.0 = "snd ?c"] e inc sp
    by (simp add: three_cycles_def defaultConfig_def)
  show ?thesis
    unfolding 1 2 using adv e by (simp add: spent_state_def)
qed

lemma fix_frame: "p \<noteq> f \<Longrightarrow> fs (snd (executeClaudeFix env cfg f issues s)) p = fs s p"
  by (simp add: executeClaudeFix_def Let_def signal_def split: option.splits)

lemma fixWithRetry_frame:
  assumes "p \<noteq> f"
  shows "fs (snd (executeClaudeFixWithRetry env cfg f issues s)) p = fs s p"
proof -
  let ?w = "withRetry (executeClaudeFix env cfg f issues) \<lparr>maxAttempts = Some 3, baseDelay = Some 1000\<rparr> s"
  have "(\<forall>q. q \<noteq> f \<longrightarrow> fs (fst (snd ?w)) q = fs s q) \<and> (\<forall>v. fst ?w = Inr v \<longrightarrow> True)"
    by (rule withRetry_post[where R = "\<lambda>a b. \<forall>q. q \<noteq> f \<longrightarrow> fs b q = fs a q" and Q = "\<lambda>r. True"])
      (simp_all add: fix_frame)
  then have "fs (fst (snd ?w)) p = fs s p" using assms by blast
  then show ?thesis by (auto simp: executeClaudeFixWithRetry_def split: prod.splits)
qed

lemma review_frame: "fs (snd (executeClaudeReview env files s)) = fs s"
  by (simp add: executeClaudeReview_def Let_def signal_def)

lemma reviewWithRetry_frame [simp]: "fs (snd (executeClaudeReviewWithRetry env files s)) = fs s"
proof -
  let ?w = "withRetry (executeClaudeReview env files) \<lparr>maxAttempts = Some 3, baseDelay = Some 1000\<rparr> s"
  have "fs (fst (snd ?w)) = fs s \<and> (\<forall>v. fst ?w = Inr v \<longrightarrow> True)"
    by (rule withRetry_post[where R = "\<lambda>a b. fs b = fs a" and Q = "\<lambda>r. True"])
      (simp_all add: review_frame)
  then show ?thesis by (auto simp: executeClaudeReviewWithRetry_def split: prod.splits)
qed

lemma verifyFix_frame [simp]: "fs (snd (verifyFix env f s)) = fs s"
proof -
  obtain r s' where e: "executeClaudeReviewWithRetry env [f] s = (r, s')"
    by (cases "executeClaudeReviewWithRetry env [f] s")
  have "fs s' = fs s" using reviewWithRetry_frame[of env "[f]" s] e by simp
  then show ?thesis using e by (cases r) (simp_all add: verifyFix_def Let_def)
qed

lemma verifyFix_throws:
  "fst (executeClaudeReviewWithRetry env [f] s) = Inl e \<Longrightarrow> \<not> verified (fst (verifyFix env f s))"
  by (cases "executeClaudeReviewWithRetry env [f] s") (simp add: verifyFix_def)

lemma backup_path_differs: "f @ ''.backup-'' @ d \<noteq> f"
proof
  assume "f @ ''.backup-'' @ d = f"
  then have "length (f @ ''.backup-'' @ d) = length f" by simp
  then show False by simp
qed

lemma backupFile_ok:
  "fs s f = Some content \<Longrightarrow>
   backupFile f s = (Some (f @ ''.backup-'' @ digits (clock s)),
                     s\<lparr>fs := (fs s)(f @ ''.backup-'' @ digits (clock s) \<mapsto> content)\<rparr>)"
  by (simp add: backupFile_def Let_def)

lemma restore_ok:
  "fs s b = Some content \<Longrightarrow> b \<noteq> f \<Longrightarrow>
   fs (snd (restoreFromBackup f b s)) f = Some content \<and> fs (snd (restoreFromBackup f b s)) b = None \<and>
   emitted (snd (restoreFromBackup f b s)) = emitted s"
  by (simp add: restoreFromBackup_def)

lemma fixFile_rolls_back:
  assumes fi: "getAutoFixableForFile cfg issues f \<noteq> []" and bk: "backupFiles cfg"
    and c: "fs (snd acc) f = Some content"
    and fails: "fst (executeClaudeFixWithRetry env cfg f (getAutoFixableForFile cfg issues f)
                    (tryEntry cfg issues f (snd acc))) = Inl e \<or>
      (\<exists>r s3. executeClaudeFixWithRetry env cfg f (getAutoFixableForFile cfg issues f)
                 (tryEntry cfg issues f (snd acc)) = (Inr r, s3) \<and> fr_fixed r \<and> verifyAfterFix cfg \<and>
               \<not> verified (fst (verifyFix env f (addCost (js_or (fr_cost r) 0) s3))))"
  shows "fs (snd (snd (fixFile env cfg issues f acc))) f = Some content \<and>
         fs (snd (snd (fixFile env cfg issues f acc))) (f @ ''.backup-'' @ digits (clock (snd acc))) = None \<and>
         fst (snd (fixFile env cfg issues f acc)) = fst acc \<and>
         last (emitted (snd (snd (fixFile env cfg issues f acc)))) =
           (clock (snd acc),
            FixComplete f False (Some []) (Some (map issueId (getAutoFixableForFile cfg issues f))))"
proof -
  let ?fi = "getAutoFixableForFile cfg issues f"
  let ?ids = "map issueId ?fi"
  let ?s1 = "emit (FixStarted f (Some ?ids)) (snd acc)"
  let ?b = "f @ ''.backup-'' @ digits (clock (snd acc))"
  let ?s2 = "?s1\<lparr>fs := (fs ?s1)(?b \<mapsto> content)\<rparr>"
  have bf: "backupFile f ?s1 = (Some ?b, ?s2)"
    using backupFile_ok[of ?s1 f content] c by simp
  have te: "tryEntry cfg issues f (snd acc) = ?s2" by (simp add: tryEntry_def bf)
  have nb: "?b \<noteq> f" by (rule backup_path_differs)
  obtain r s3 where e: "executeClaudeFixWithRetry env cfg f ?fi ?s2 = (r, s3)"
    by (cases "executeClaudeFixWithRetry env cfg f ?fi ?s2")
  have b3: "fs s3 ?b = Some content"
    using fixWithRetry_frame[OF nb, of env cfg ?fi ?s2] e by simp
  have k3: "clock s3 = clock (snd acc)"
    using follows_fixWithRetry[of env ?s2 cfg f ?fi] e by (simp add: follows_def)
  have ff: "fixFile env cfg issues f acc =
      (case fixTransaction env cfg f ?fi ?ids (Some ?b) (fst acc, ?s2) of
         (fixedCount, s') \<Rightarrow> (stopped (rs s'), fixedCount, s'))"
    using fi bk bf by (simp add: fixFile_def Let_def)
  show ?thesis
  proof (cases r)
    case (Inl err)
    have "fixTransaction env cfg f ?fi ?ids (Some ?b) (fst acc, ?s2) =
        (fst acc, emit (FixComplete f False (Some []) (Some ?ids)) (snd (restoreFromBackup f ?b s3)))"
      using e Inl by (simp add: fixTransaction_def)
    then have res: "fixFile env cfg issues f acc =
        (stopped (rs s3), fst acc,
         emit (FixComplete f False (Some []) (Some ?ids)) (snd (restoreFromBackup f ?b s3)))"
      unfolding ff by simp
    have rb: "snd (restoreFromBackup f ?b s3) = s3\<lparr>fs := ((fs s3)(f \<mapsto> content))(?b := None)\<rparr>"
      by (simp only: restoreFromBackup_def b3 option.case snd_conv)
    show ?thesis
      unfolding res rb using nb k3 by (simp add: emit_def)
  next
    case (Inr v)
    then have v: "fr_fixed v" "verifyAfterFix cfg"
      and nv: "\<not> verified (fst (verifyFix env f (addCost (js_or (fr_cost v) 0) s3)))"
      using fails e te by auto
    obtain ver s4 where vf: "verifyFix env f (addCost (js_or (fr_cost v) 0) s3) = (ver, s4)"
      by (cases "verifyFix env f (addCost (js_or (fr_cost v) 0) s3)")
    have b4: "fs s4 ?b = Some content"
      using verifyFix_frame[of env f "addCost (js_or (fr_cost v) 0) s3"] vf b3 by simp
    have k4: "clock s4 = clock (snd acc)"
      using follows_verifyFix[of env "addCost (js_or (fr_cost v) 0) s3" f] vf k3
      by (simp add: follows_def)
    have "fixTransaction env cfg f ?fi ?ids (Some ?b) (fst acc, ?s2) =
        (fst acc, emit (FixComplete f False (Some []) (Some ?ids))
           (emit (VerificationResult f False True) (snd (restoreFromBackup f ?b (addCost (round64 (1 / 50)) s4)))))"
      using e Inr v nv vf by (simp add: fixTransaction_def Let_def)
    then have res: "fixFile env cfg issues f acc =
        (stopped (rs s4), fst acc,
         emit (FixComplete f False (Some []) (Some ?ids))
           (emit (VerificationResult f False True) (snd (restoreFromBackup f ?b (addCost (round64 (1 / 50)) s4)))))"
      unfolding ff by simp
    have b4': "fs (addCost (round64 (1 / 50)) s4) ?b = Some content" using b4 by simp
    have rb: "snd (restoreFromBackup f ?b (addCost (round64 (1 / 50)) s4)) =
        (addCost (round64 (1 / 50)) s4)\<lparr>fs := ((fs (addCost (round64 (1 / 50)) s4))(f \<mapsto> content))(?b := None)\<rparr>"
      by (simp only: restoreFromBackup_def b4' option.case snd_conv)
    show ?thesis
      unfolding res rb using nb k4 by (simp add: emit_def)
  qed
qed

lemma fixFile_fails_without_backup:
  assumes fi: "getAutoFixableForFile cfg issues f \<noteq> []" and bk: "\<not> backupFiles cfg"
    and fails: "fst (executeClaudeFixWithRetry env cfg f (getAutoFixableForFile cfg issues f)
                    (emit (FixStarted f (Some (map issueId (getAutoFixableForFile cfg issues f)))) (snd acc))) = Inl e"
  shows "fst (snd (fixFile env cfg issues f acc)) = fst acc \<and>
         last (emitted (snd (snd (fixFile env cfg issues f acc)))) =
           (clock (snd acc),
            FixComplete f False (Some []) (Some (map issueId (getAutoFixableForFile cfg issues f))))"
proof -
  let ?fi = "getAutoFixableForFile cfg issues f"
  let ?s1 = "emit (FixStarted f (Some (map issueId ?fi))) (snd acc)"
  obtain s3 where e: "executeClaudeFixWithRetry env cfg f ?fi ?s1 = (Inl e, s3)"
    using fails by (cases "executeClaudeFixWithRetry env cfg f ?fi ?s1") simp
  have k3: "clock s3 = clock (snd acc)"
    using follows_fixWithRetry[of env ?s1 cfg f ?fi] e by (simp add: follows_def)
  have "fixFile env cfg issues f acc =
      (stopped (rs s3), fst acc, emit (FixComplete f False (Some []) (Some (map issueId ?fi))) s3)"
    using fi bk e by (simp add: fixFile_def fixTransaction_def Let_def)
  then show ?thesis using k3 by simp
qed

lemma fixLoop_step:
  "fixLoop env cfg issues (f # rest) acc =
     (if fst (fixFile env cfg issues f acc) then snd (fixFile env cfg issues f acc)
      else fixLoop env cfg issues rest (snd (fixFile env cfg issues f acc)))"
  by (simp split: prod.splits)

lemma fixFile_break:
  "getAutoFixableForFile cfg issues f \<noteq> [] \<Longrightarrow> backupFiles cfg \<longrightarrow> fs (snd acc) f \<noteq> None \<Longrightarrow>
   fst (fixFile env cfg issues f acc) = stopped (rs (snd (snd (fixFile env cfg issues f acc))))"
  by (auto simp: fixFile_def Let_def backupFile_def split: prod.splits option.splits)

text \<open>
  Claim C5. Take a file of the fixing pass that has auto-fixable issues and, backups being
  on, exists on disk. When the fix call throws (after its retries, or at once on a fatal
  error), or when the fix reports success and the re-detection of the verification throws,
  the file has again the content it had before, the backup is gone, the count of fixed
  issues is unchanged and the last event emitted is \<^verbatim>\<open>fix_complete\<close> with all the file's
  issue ids as failed. With backups off, a throwing fix call still ends in that event, with
  nothing to restore. In both cases the loop goes on with the next file, unless Ctrl+C has
  set \<^verbatim>\<open>stopped\<close> meanwhile: nothing is thrown out of the loop.
\<close>

theorem fix_failure_is_contained:
  "(getAutoFixableForFile cfg issues f \<noteq> [] \<and> backupFiles cfg \<and> fs (snd acc) f = Some content \<and>
    (fst (executeClaudeFixWithRetry env cfg f (getAutoFixableForFile cfg issues f)
            (tryEntry cfg issues f (snd acc))) = Inl e \<or>
     (\<exists>r s3. executeClaudeFixWithRetry env cfg f (getAutoFixableForFile cfg issues f)
                (tryEntry cfg issues f (snd acc)) = (Inr r, s3) \<and> fr_fixed r \<and> verifyAfterFix cfg \<and>
              fst (executeClaudeReviewWithRetry env [f] (addCost (js_or (fr_cost r) 0) s3)) = Inl e'))
    \<longrightarrow>
      fs (snd (snd (fixFile env cfg issues f acc))) f = Some content \<and>
      fs (snd (snd (fixFile env cfg issues f acc))) (f @ ''.backup-'' @ digits (clock (snd acc))) = None \<and>
      fst (snd (fixFile env cfg issues f acc)) = fst acc \<and>
      last (emitted (snd (snd (fixFile env cfg issues f acc)))) =
        (clock (snd acc),
         FixComplete f False (Some []) (Some (map issueId (getAutoFixableForFile cfg issues f)))) \<and>
      fixLoop env cfg issues (f # rest) acc =
        (if stopped (rs (snd (snd (fixFile env cfg issues f acc))))
         then snd (fixFile env cfg issues f acc)
         else fixLoop env cfg issues rest (snd (fixFile env cfg issues f acc))))
   \<and> (getAutoFixableForFile cfg issues f \<noteq> [] \<and> \<not> backupFiles cfg \<and>
      fst (executeClaudeFixWithRetry env cfg f (getAutoFixableForFile cfg issues f)
            (emit (FixStarted f (Some (map issueId (getAutoFixableForFile cfg issues f)))) (snd acc))) = Inl e
    \<longrightarrow>
      fst (snd (fixFile env cfg issues f acc)) = fst acc \<and>
      last (emitted (snd (snd (fixFile env cfg issues f acc)))) =
        (clock (snd acc),
         FixComplete f False (Some []) (Some (map issueId (getAutoFixableForFile cfg issues f)))) \<and>
      fixLoop env cfg issues (f # rest) acc =
        (if stopped (rs (snd (snd (fixFile env cfg issues f acc))))
         then snd (fixFile env cfg issues f acc)
         else fixLoop env cfg issues rest (snd (fixFile env cfg issues f acc))))
   \<and> (no_sigint env \<longrightarrow>
        stopped (rs (snd (snd (fixFile env cfg issues f acc)))) = stopped (rs (snd acc)))"
proof (intro conjI impI)
  assume a: "getAutoFixableForFile cfg issues f \<noteq> [] \<and> backupFiles cfg \<and> fs (snd acc) f = Some content \<and>
    (fst (executeClaudeFixWithRetry env cfg f (getAutoFixableForFile cfg issues f)
            (tryEntry cfg issues f (snd acc))) = Inl e \<or>
     (\<exists>r s3. executeClaudeFixWithRetry env cfg f (getAutoFixableForFile cfg issues f)
                (tryEntry cfg issues f (snd acc)) = (Inr r, s3) \<and> fr_fixed r \<and> verifyAfterFix cfg \<and>
              fst (executeClaudeReviewWithRetry env [f] (addCost (js_or (fr_cost r) 0) s3)) = Inl e'))"
  then have fails: "fst (executeClaudeFixWithRetry env cfg f (getAutoFixableForFile cfg issues f)
                    (tryEntry cfg issues f (snd acc))) = Inl e \<or>
      (\<exists>r s3. executeClaudeFixWithRetry env cfg f (getAutoFixableForFile cfg issues f)
                 (tryEntry cfg issues f (snd acc)) = (Inr r, s3) \<and> fr_fixed r \<and> verifyAfterFix cfg \<and>
               \<not> verified (fst (verifyFix env f (addCost (js_or (fr_cost r) 0) s3))))"
    using verifyFix_throws by blast
  note rb = fixFile_rolls_back[of cfg issues f acc content env e, OF _ _ _ fails]
  show "fs (snd (snd (fixFile env cfg issues f acc))) f = Some content" using a rb by blast
  show "fs (snd (snd (fixFile env cfg issues f acc))) (f @ ''.backup-'' @ digits (clock (snd acc))) = None"
    using a rb by blast
  show "fst (snd (fixFile env cfg issues f acc)) = fst acc" using a rb by blast
  show "last (emitted (snd (snd (fixFile env cfg issues f acc)))) =
        (clock (snd acc),
         FixComplete f False (Some []) (Some (map issueId (getAutoFixableForFile cfg issues f))))"
    using a rb by blast
  have "fst (fixFile env cfg issues f acc) = stopped (rs (snd (snd (fixFile env cfg issues f acc))))"
    using a by (intro fixFile_break) simp_all
  then show "fixLoop env cfg issues (f # rest) acc =
        (if stopped (rs (snd (snd (fixFile env cfg issues f acc))))
         then snd (fixFile env cfg issues f acc)
         else fixLoop env cfg issues rest (snd (fixFile env cfg issues f acc)))"
    by (subst fixLoop_step) simp
next
  assume a: "getAutoFixableForFile cfg issues f \<noteq> [] \<and> \<not> backupFiles cfg \<and>
      fst (executeClaudeFixWithRetry env cfg f (getAutoFixableForFile cfg issues f)
            (emit (FixStarted f (Some (map issueId (getAutoFixableForFile cfg issues f)))) (snd acc))) = Inl e"
  note nb = fixFile_fails_without_backup[of cfg issues f env acc e]
  show "fst (snd (fixFile env cfg issues f acc)) = fst acc" using a nb by blast
  show "last (emitted (snd (snd (fixFile env cfg issues f acc)))) =
        (clock (snd acc),
         FixComplete f False (Some []) (Some (map issueId (getAutoFixableForFile cfg issues f))))"
    using a nb by blast
  have "fst (fixFile env cfg issues f acc) = stopped (rs (snd (snd (fixFile env cfg issues f acc))))"
    using a by (intro fixFile_break) simp_all
  then show "fixLoop env cfg issues (f # rest) acc =
        (if stopped (rs (snd (snd (fixFile env cfg issues f acc))))
         then snd (fixFile env cfg issues f acc)
         else fixLoop env cfg issues rest (snd (fixFile env cfg issues f acc)))"
    by (subst fixLoop_step) simp
next
  assume "no_sigint env"
  then show "stopped (rs (snd (snd (fixFile env cfg issues f acc)))) = stopped (rs (snd acc))"
    using follows_fixFile[of env acc cfg issues f] by (simp add: follows_def)
qed

lemma sample_file_issues:
  "getAutoFixableForFile defaultConfig [one_issue, other_issue] ''a.ts'' = [one_issue]"
  "getAutoFixableForFile without_backups [one_issue, other_issue] ''a.ts'' = [one_issue]"
  by code_simp+

lemma botched_throws:
  "fst (executeClaudeFixWithRetry botched_fixer cfg f [one_issue] s) = Inl (Err timed_out)"
  by (simp add: executeClaudeFixWithRetry_def withRetry_def retry_loop.simps executeClaudeFix_def
      botched_fixer_def Let_def sample_errors inferAutoFixable_def one_issue_def)

lemma botched_quiet: "no_sigint botched_fixer"
  by (simp add: no_sigint_def botched_fixer_def)

theorem fix_failure_is_contained_witness:
  "fs (snd (snd (fixFile botched_fixer defaultConfig [one_issue, other_issue] ''a.ts''
        (0, initialSys two_files 1700)))) ''a.ts'' = Some ''console.log(1)''
   \<and> fst (snd (fixFile botched_fixer defaultConfig [one_issue, other_issue] ''a.ts''
        (0, initialSys two_files 1700))) = 0
   \<and> fixLoop botched_fixer defaultConfig [one_issue, other_issue] [''a.ts'', ''b.ts'']
        (0, initialSys two_files 1700) =
       fixLoop botched_fixer defaultConfig [one_issue, other_issue] [''b.ts'']
        (snd (fixFile botched_fixer defaultConfig [one_issue, other_issue] ''a.ts''
           (0, initialSys two_files 1700)))
   \<and> fixLoop botched_fixer without_backups [one_issue, other_issue] [''a.ts'', ''b.ts'']
        (0, initialSys two_files 1700) =
       fixLoop botched_fixer without_backups [one_issue, other_issue] [''b.ts'']
        (snd (fixFile botched_fixer without_backups [one_issue, other_issue] ''a.ts''
           (0, initialSys two_files 1700)))"
proof -
  note t1 = fix_failure_is_contained[where env = botched_fixer and cfg = defaultConfig
      and issues = "[one_issue, other_issue]" and f = "''a.ts''" and acc = "(0, initialSys two_files 1700)"
      and content = "''console.log(1)''" and e = "Err timed_out" and rest = "[''b.ts'']"]
  note t2 = fix_failure_is_contained[where env = botched_fixer and cfg = without_backups
      and issues = "[one_issue, other_issue]" and f = "''a.ts''" and acc = "(0, initialSys two_files 1700)"
      and e = "Err timed_out" and rest = "[''b.ts'']"]
  have d: "fs (initialSys two_files 1700) ''a.ts'' = Some ''console.log(1)''"
    "\<not> stopped (rs (initialSys two_files 1700))"
    by (simp_all add: initialSys_def two_files_def)
  have c: "backupFiles defaultConfig" "\<not> backupFiles without_backups"
    by (simp_all add: defaultConfig_def without_backups_def)
  show ?thesis
    using t1 t2 d c botched_quiet sample_file_issues botched_throws
    by simp
qed

lemma apply_events_snoc:
  "apply_events s0 (evs @ [(t, e)]) = updateRalphState t e (apply_events s0 evs)"
  by (simp add: apply_events_def)

lemma dash_cost_snoc:
  "dash_cost (evs @ [(t, e)]) = d_totalCost (updateRalphState t e (apply_events initialDashState evs))"
  by (simp add: dash_cost_def apply_events_snoc)

lemma dash_cost_monotone_snoc:
  "dash_cost_monotone (evs @ [x]) \<longleftrightarrow> dash_cost_monotone evs \<and> dash_cost evs \<le> dash_cost (evs @ [x])"
proof -
  have "(\<forall>k < Suc (length evs). dash_cost (take k (evs @ [x])) \<le> dash_cost (take (Suc k) (evs @ [x]))) \<longleftrightarrow>
        (\<forall>k < length evs. dash_cost (take k (evs @ [x])) \<le> dash_cost (take (Suc k) (evs @ [x]))) \<and>
        dash_cost (take (length evs) (evs @ [x])) \<le> dash_cost (take (Suc (length evs)) (evs @ [x]))"
    by (auto simp: less_Suc_eq)
  then show ?thesis by (simp add: dash_cost_monotone_def)
qed

lemma cost_inv_emit:
  assumes "cost_inv s"
    and "dash_cost (emitted s) \<le> d_totalCost (updateRalphState (clock s) ev (apply_events initialDashState (emitted s)))"
    and "d_totalCost (updateRalphState (clock s) ev (apply_events initialDashState (emitted s))) \<le> totalCost (rs s)"
    and "is_double (d_totalCost (updateRalphState (clock s) ev (apply_events initialDashState (emitted s))))"
  shows "cost_inv (emit ev s)"
  using assms by (simp add: cost_inv_def dash_cost_monotone_snoc dash_cost_snoc)

lemma cost_inv_neutral:
  "cost_inv s \<Longrightarrow> cost_neutral ev \<Longrightarrow> cost_inv (emit ev s)"
  by (rule cost_inv_emit) (simp_all add: cost_neutral_def cost_inv_def dash_cost_def)

lemma cost_inv_total:
  "cost_inv s \<Longrightarrow> cost_inv (emit (CostUpdate (Some (totalCost (rs s)))) s)"
  "cost_inv s \<Longrightarrow> cost_inv (emit (CycleComplete c n (Some (totalCost (rs s)))) s)"
  "cost_inv s \<Longrightarrow> cost_inv (emit (RalphComplete st fx (Some (totalCost (rs s))) r) s)"
  by (rule cost_inv_emit; simp add: cost_inv_def dash_cost_def js_or_def)+

lemma cost_inv_appended:
  "cost_inv s \<Longrightarrow> \<forall>e \<in> set evs. cost_neutral (snd e) \<Longrightarrow>
   dash_cost_monotone (emitted s @ evs) \<and> dash_cost (emitted s @ evs) = dash_cost (emitted s)"
proof (induction evs rule: rev_induct)
  case Nil
  then show ?case by (simp add: cost_inv_def)
next
  case (snoc x evs)
  obtain t e where x: "x = (t, e)" by (cases x)
  have n: "cost_neutral e" using snoc.prems(2) x by simp
  have ih: "dash_cost_monotone (emitted s @ evs)" "dash_cost (emitted s @ evs) = dash_cost (emitted s)"
    using snoc.IH snoc.prems by simp_all
  have "dash_cost ((emitted s @ evs) @ [(t, e)]) = dash_cost (emitted s @ evs)"
    using n unfolding dash_cost_snoc by (simp add: cost_neutral_def dash_cost_def)
  then show ?case using ih x
    by (simp add: dash_cost_monotone_snoc[of "emitted s @ evs", simplified])
qed

lemma cost_inv_follows:
  assumes "cost_inv s" "follows env s s'" "nonneg_costs env"
  shows "cost_inv s'"
proof -
  have dt: "is_double (totalCost (rs s))" using assms(1) by (simp add: cost_inv_def)
  obtain evs where e: "emitted s' = emitted s @ evs" "\<forall>e \<in> set evs. cost_neutral (snd e)"
    using assms(2) by (auto simp: follows_def)
  have t: "totalCost (rs s) \<le> totalCost (rs s')" "is_double (totalCost (rs s'))"
    using follows_fields(3,5)[OF assms(2)] assms(3) dt by simp_all
  show ?thesis
    using cost_inv_appended[OF assms(1) e(2)] e(1) t assms(1) by (simp add: cost_inv_def)
qed

lemma detection_complete_cost:
  "d_totalCost (updateRalphState t (DetectionComplete iss af (Some c)) st) =
     (if c \<noteq> 0 then js_plus (d_totalCost st) c else d_totalCost st)"
proof -
  have "d_totalCost (foldl detection_add s l) = d_totalCost s" for s l
    by (rule foldl_field) (simp add: detection_add_def Let_def)
  then show ?thesis by (cases iss) (simp_all add: Let_def)
qed

lemma cost_inv_detectionDone:
  assumes "cost_inv s" "0 \<le> js_or (det_cost d) 0"
  shows "cost_inv (detectionDone cfg d s)"
proof -
  let ?c = "js_or (det_cost d) 0"
  let ?iss = "case det_issues d of None \<Rightarrow> [] | Some l \<Rightarrow> l"
  let ?s5 = "addCost ?c s"
  let ?s6 = "?s5\<lparr>rs := (rs ?s5)\<lparr>totalIssuesFound := totalIssuesFound (rs ?s5) + length ?iss\<rparr>\<rparr>"
  let ?s7 = "emit (DetectionComplete (Some (map (event_issue cfg) ?iss)) (countAutoFixable cfg ?iss) (Some ?c)) ?s6"
  let ?D = "dash_cost (emitted s)" and ?T = "totalCost (rs s)"
  have inv: "?D \<le> ?T" "is_double ?D" "is_double ?T" using assms(1) by (simp_all add: cost_inv_def)
  have up: "?T \<le> js_plus ?T ?c" using inv(3) assms(2) by (rule js_plus_ge)
  have i6: "cost_inv ?s6" using assms(1) up by (simp add: cost_inv_def)
  have t6: "totalCost (rs ?s6) = js_plus ?T ?c" "emitted ?s6 = emitted s" "clock ?s6 = clock s" by simp_all
  let ?D' = "if ?c \<noteq> 0 then js_plus ?D ?c else ?D"
  have a: "?D \<le> ?D'" using js_plus_ge[OF inv(2) assms(2)] by simp
  have b: "?D' \<le> js_plus ?T ?c"
    using js_plus_mono[OF inv(1) order_refl, of ?c] inv(1,3) up by (cases "?c = 0") simp_all
  have c: "is_double ?D'" using inv(2) by simp
  have dc: "d_totalCost (updateRalphState (clock s)
        (DetectionComplete (Some (map (event_issue cfg) ?iss)) (countAutoFixable cfg ?iss) (Some ?c))
        (apply_events initialDashState (emitted s))) = ?D'"
    by (simp add: detection_complete_cost dash_cost_def del: updateRalphState.simps)
  have i7: "cost_inv ?s7"
    by (rule cost_inv_emit[OF i6]) (simp_all only: t6 dc a b c)
  have "cost_inv (emit (CostUpdate (Some (totalCost (rs ?s7)))) ?s7)"
    by (rule cost_inv_total(1)[OF i7])
  then show ?thesis by (simp add: detectionDone_def Let_def)
qed

lemma cost_inv_cycleStart: "cost_inv s \<Longrightarrow> cost_inv (cycleStart cfg files s)"
proof -
  assume a: "cost_inv s"
  let ?s1 = "s\<lparr>rs := (rs s)\<lparr>cycle := cycle (rs s) + 1\<rparr>\<rparr>"
  have "cost_inv ?s1" using a by (simp add: cost_inv_def)
  then show ?thesis by (simp add: cycleStart_def Let_def cost_inv_neutral)
qed

lemma runRalphCycle_cost_inv:
  assumes nn: "nonneg_costs env" and inv: "cost_inv s"
  shows "cost_inv (snd (runRalphCycle env cfg files s))"
proof -
  obtain r s4 where rv: "executeClaudeReviewWithRetry env files (cycleStart cfg files s) = (r, s4)"
    by (cases "executeClaudeReviewWithRetry env files (cycleStart cfg files s)")
  have f34: "follows env (cycleStart cfg files s) s4"
    and c4: "\<And>d. r = Inr d \<Longrightarrow> 0 \<le> js_or (det_cost d) 0"
    using follows_reviewWithRetry[of env "cycleStart cfg files s" files] rv nn by auto
  have i4: "cost_inv s4"
    by (rule cost_inv_follows[OF cost_inv_cycleStart[OF inv] f34 nn])
  show ?thesis
  proof (cases r)
    case (Inl e)
    then show ?thesis using rv i4 by (simp add: runRalphCycle_def)
  next
    case (Inr d)
    define iss where "iss = (case det_issues d of None \<Rightarrow> [] | Some l \<Rightarrow> l)"
    have i8: "cost_inv (detectionDone cfg d s4)"
      by (rule cost_inv_detectionDone[OF i4 c4[OF Inr]])
    obtain n s9 where fl: "fixLoop env cfg iss (new_Set (map i_file iss)) (0, detectionDone cfg d s4) = (n, s9)"
      by (cases "fixLoop env cfg iss (new_Set (map i_file iss)) (0, detectionDone cfg d s4)")
    have f89: "follows env (detectionDone cfg d s4) s9"
      using follows_fixLoop[of env "(0, detectionDone cfg d s4)" cfg iss "new_Set (map i_file iss)"] fl by simp
    have i9: "cost_inv s9" by (rule cost_inv_follows[OF i8 f89 nn])
    have i10: "cost_inv (emit (CycleComplete (cycle (rs s9)) n (Some (totalCost (rs s9)))) s9)"
      by (rule cost_inv_total(2)[OF i9])
    show ?thesis using rv Inr i8 i10 fl
      by (simp add: runRalphCycle_def Let_def iss_def[symmetric])
  qed
qed

lemma cost_inv_budgetWarn: "cost_inv s \<Longrightarrow> cost_inv (budgetWarn cfg s)"
  by (simp add: budgetWarn_def cost_inv_neutral)

lemma exits_cost_inv:
  "cost_inv s \<Longrightarrow> cost_inv (snd (stoppedExit s))"
  "cost_inv s \<Longrightarrow> cost_inv (snd (completeExit result s))"
  by (simp_all add: stoppedExit_def completeExit_def Let_def cost_inv_total)

lemma exits_cost [simp]:
  "totalCost (rs (snd (completeExit result s))) = totalCost (rs s)"
  by (simp add: completeExit_def)

lemma mainLoop_cost:
  assumes nn: "nonneg_costs env"
  shows "k = maxCycles cfg - cycle (rs s) \<Longrightarrow> is_double (totalCost (rs s)) \<Longrightarrow>
     totalCost (rs s) \<le> totalCost (rs (snd (mainLoop env cfg files s))) \<and>
     (cost_inv s \<longrightarrow> cost_inv (snd (mainLoop env cfg files s)))"
proof (induction k arbitrary: s)
  case 0
  then have "mainLoop env cfg files s = stoppedExit s"
    by (subst mainLoop.simps) simp
  then show ?case by (simp add: exits_cost_inv)
next
  case (Suc k)
  show ?case
  proof (cases "cycle (rs s) < maxCycles cfg \<and> \<not> stopped (rs s) \<and>
      \<not> js_ge (totalCost (rs s)) (budgetHard cfg)")
    case False
    then have "mainLoop env cfg files s = stoppedExit s"
      by (subst mainLoop.simps) auto
    then show ?thesis by (simp add: exits_cost_inv)
  next
    case True
    obtain result s2 where r: "runRalphCycle env cfg files (budgetWarn cfg s) = (result, s2)"
      by (cases "runRalphCycle env cfg files (budgetWarn cfg s)")
    have adv: "cycle (rs s2) = Suc (cycle (rs s))" "totalCost (rs s) \<le> totalCost (rs s2)"
      "is_double (totalCost (rs s2))"
      using runRalphCycle_advances[of env "budgetWarn cfg s" cfg files] r nn Suc.prems(2)
      by (simp_all add: advances_def)
    have i2: "cost_inv s \<longrightarrow> cost_inv s2"
    proof
      assume "cost_inv s"
      then have "cost_inv (budgetWarn cfg s)" by (rule cost_inv_budgetWarn)
      from runRalphCycle_cost_inv[OF nn this, of cfg files] show "cost_inv s2" using r by simp
    qed
    have step: "mainLoop env cfg files s =
        (if cr_complete result then completeExit result s2 else mainLoop env cfg files s2)"
      using True r by (subst mainLoop.simps) simp
    have k: "k = maxCycles cfg - cycle (rs s2)" using Suc.prems(1) adv(1) by simp
    show ?thesis
    proof (cases "cr_complete result")
      case True
      then show ?thesis using step adv(2) i2 by (simp add: exits_cost_inv)
    next
      case False
      then show ?thesis using step adv(2) i2 Suc.IH[OF k adv(3)] by auto
    qed
  qed
qed

text \<open>
  Claim C2, as amended. Let the engine never report a negative cost. Adding a non-negative
  amount to a \<open>totalCost\<close> that is a value of the number format (as every stored total is)
  does not lower it, and the amounts added are the detection cost, the fix cost and the
  verification estimate \<^verbatim>\<open>0.02\<close>. A cycle ends with \<open>totalCost\<close> at least what it was when
  the cycle started; so does the main loop, and so does the run. Along the events that a run
  emits, from \<^verbatim>\<open>ralph_started\<close> on, no application of the reducer lowers the dashboard's
  \<open>totalCost\<close>: \<^verbatim>\<open>detection_complete\<close> adds the detection cost, and \<^verbatim>\<open>cost_update\<close>,
  \<^verbatim>\<open>cycle_complete\<close> and \<^verbatim>\<open>ralph_complete\<close> store the watcher's running total, which is
  never below the dashboard's.
\<close>

theorem totalCost_never_decreases:
  "nonneg_costs env \<longrightarrow>
     (0 \<le> c \<and> is_double (totalCost (rs s)) \<longrightarrow> totalCost (rs s) \<le> totalCost (rs (addCost c s))) \<and>
     (is_double (totalCost (rs s)) \<longrightarrow>
        totalCost (rs s) \<le> totalCost (rs (snd (runRalphCycle env cfg files s))) \<and>
        totalCost (rs s) \<le> totalCost (rs (snd (mainLoop env cfg files s)))) \<and>
     totalCost (rs (initialSys disk now)) \<le> totalCost (rs (snd (runRalphMode env cfg files (initialSys disk now)))) \<and>
     (\<forall>k < length (emitted (snd (runRalphMode env cfg files (initialSys disk now)))).
        dash_cost (take k (emitted (snd (runRalphMode env cfg files (initialSys disk now))))) \<le>
        dash_cost (take (Suc k) (emitted (snd (runRalphMode env cfg files (initialSys disk now))))))"
proof (intro impI conjI)
  assume nn: "nonneg_costs env"
  show "totalCost (rs s) \<le> totalCost (rs (addCost c s))" if "0 \<le> c \<and> is_double (totalCost (rs s))"
    using that by (simp add: js_plus_ge)
  show "totalCost (rs s) \<le> totalCost (rs (snd (runRalphCycle env cfg files s)))"
    if "is_double (totalCost (rs s))"
    using runRalphCycle_advances[of env s cfg files] nn that by (simp add: advances_def)
  show "totalCost (rs s) \<le> totalCost (rs (snd (mainLoop env cfg files s)))"
    if "is_double (totalCost (rs s))"
    using mainLoop_cost[OF nn refl that, where cfg = cfg and files = files] by simp
  let ?s1 = "(initialSys disk now)\<lparr>rs := (rs (initialSys disk now))\<lparr>startTime := Some (clock (initialSys disk now))\<rparr>\<rparr>"
  let ?s2 = "emit (RalphStarted (Some (maxCycles cfg)) (Some (budgetHard cfg))) ?s1"
  have i1: "cost_inv ?s1"
    by (simp add: cost_inv_def initialSys_def dash_cost_monotone_def dash_cost_def apply_events_def
        initialDashState_def)
  have i2: "cost_inv ?s2"
    by (rule cost_inv_emit[OF i1]) (simp_all add: initialSys_def dash_cost_def apply_events_def initialDashState_def)
  have d2: "is_double (totalCost (rs ?s2))" by (simp add: initialSys_def)
  have m: "totalCost (rs ?s2) \<le> totalCost (rs (snd (mainLoop env cfg files ?s2)))"
    "cost_inv (snd (mainLoop env cfg files ?s2))"
    using mainLoop_cost[OF nn refl d2, where cfg = cfg and files = files] i2 by simp_all
  have fin: "cost_inv (snd (runRalphMode env cfg files (initialSys disk now)))"
    using i1 m(2) by (auto simp: runRalphMode_def Let_def split: prod.splits)
  show "totalCost (rs (initialSys disk now)) \<le> totalCost (rs (snd (runRalphMode env cfg files (initialSys disk now))))"
    using m(1) by (auto simp: runRalphMode_def Let_def initialSys_def split: prod.splits)
  show "\<forall>k < length (emitted (snd (runRalphMode env cfg files (initialSys disk now)))).
        dash_cost (take k (emitted (snd (runRalphMode env cfg files (initialSys disk now))))) \<le>
        dash_cost (take (Suc k) (emitted (snd (runRalphMode env cfg files (initialSys disk now)))))"
    using fin by (simp add: cost_inv_def dash_cost_monotone_def)
qed

lemma manual_run_events:
  "map snd (emitted (snd (runRalphMode manual_reviewer defaultConfig [''a.ts''] (initialSys sample_disk 1700)))) =
     [RalphStarted (Some 10) (Some 20), CycleStarted 1 10, DetectionStarted 1,
      DetectionComplete (Some [event_issue defaultConfig api_key_issue]) 0 (Some (1 / 8)),
      CostUpdate (Some (1 / 8)),
      RalphComplete ''complete'' 0 (Some (1 / 8)) ''No auto-fixable issues remaining'']"
  by (simp add: runRalphMode_def mainLoop.simps budgetWarn_def runRalphCycle_def cycleStart_def
      detectionDone_def executeClaudeReviewWithRetry_def withRetry_def retry_loop.simps
      executeClaudeReview_def signal_def addCost_def emit_def completeExit_def countAutoFixable_def
      inferAutoFixable_def manual_reviewer_def api_key_issue_def defaultConfig_def initialSys_def
      js_or_def Let_def)

lemma manual_reviewer_costs: "nonneg_costs manual_reviewer"
  by (simp add: nonneg_costs_def manual_reviewer_def js_or_def)

theorem totalCost_never_decreases_witness:
  "dash_cost (take 3 (emitted (snd (runRalphMode manual_reviewer defaultConfig [''a.ts'']
      (initialSys sample_disk 1700))))) \<le>
   dash_cost (take 4 (emitted (snd (runRalphMode manual_reviewer defaultConfig [''a.ts'']
      (initialSys sample_disk 1700)))))
   \<and> 0 \<le> totalCost (rs (snd (runRalphMode manual_reviewer defaultConfig [''a.ts'']
      (initialSys sample_disk 1700))))
   \<and> totalCost (rs (initialSys sample_disk 1700)) \<le>
       totalCost (rs (addCost (round64 (1 / 50)) (initialSys sample_disk 1700)))
   \<and> totalCost (rs (initialSys sample_disk 1700)) \<le>
       totalCost (rs (snd (runRalphCycle manual_reviewer defaultConfig [''a.ts''] (initialSys sample_disk 1700))))"
proof -
  let ?E = "emitted (snd (runRalphMode manual_reviewer defaultConfig [''a.ts''] (initialSys sample_disk 1700)))"
  have "length (map snd ?E) = 6" unfolding manual_run_events by simp
  then have l: "3 < length ?E" by simp
  have z: "totalCost (rs (initialSys sample_disk 1700)) = 0" by (simp add: initialSys_def)
  then have dz: "is_double (totalCost (rs (initialSys sample_disk 1700)))" by simp
  note t = totalCost_never_decreases[where env = manual_reviewer and cfg = defaultConfig
        and files = "[''a.ts'']" and disk = sample_disk and now = 1700 and c = "round64 (1 / 50)"
        and s = "initialSys sample_disk 1700", rule_format, OF manual_reviewer_costs]
  have "dash_cost (take 3 ?E) \<le> dash_cost (take (Suc 3) ?E)"
    using t l by blast
  moreover have "Suc 3 = 4" by simp
  ultimately have a: "dash_cost (take 3 ?E) \<le> dash_cost (take 4 ?E)" by simp
  have b: "0 \<le> totalCost (rs (snd (runRalphMode manual_reviewer defaultConfig [''a.ts'']
      (initialSys sample_disk 1700))))"
    using t z by simp
  have c: "totalCost (rs (initialSys sample_disk 1700)) \<le>
       totalCost (rs (addCost (round64 (1 / 50)) (initialSys sample_disk 1700)))"
    using t dz estimate_nonneg by blast
  have d: "totalCost (rs (initialSys sample_disk 1700)) \<le>
       totalCost (rs (snd (runRalphCycle manual_reviewer defaultConfig [''a.ts''] (initialSys sample_disk 1700))))"
    using t dz by blast
  show ?thesis using a b c d by blast
qed

text \<open>
  Claim C2 as stated fails: nothing in the code keeps a cost that the engine reports from
  being negative. With a detection that reports the cost \<open>- 1\<close>, the run lowers
  \<open>totalCost\<close> from 0 to \<open>- 1\<close>.
\<close>

theorem negative_cost_lowers_totalCost_counterexample:
  "totalCost (rs (initialSys sample_disk 1700)) = 0 \<and>
   totalCost (rs (snd (runRalphMode refunding_reviewer defaultConfig [''a.ts'']
      (initialSys sample_disk 1700)))) = - 1"
  by (simp add: runRalphMode_def mainLoop.simps budgetWarn_def runRalphCycle_def cycleStart_def
      detectionDone_def executeClaudeReviewWithRetry_def withRetry_def retry_loop.simps
      executeClaudeReview_def signal_def addCost_def emit_def completeExit_def countAutoFixable_def
      refunding_reviewer_def defaultConfig_def initialSys_def js_or_def Let_def)

end
